theory Spec2Isabelle
  imports Main
begin

section \<open>Data model of \<open>src/lib/process.ts\<close>\<close>

text \<open>
  Child processes and promises are heap objects of the JavaScript runtime. They are
  modelled by an explicit store: a child process is a natural number (its address), a
  promise likewise, and the state maps each address to the object's current contents.
  Fresh addresses are taken from two counters.
\<close>

type_synonym child_id = nat
type_synonym promise_id = nat

text \<open>
  \<open>Spawn_Result = Result<Spawned, Spawned>\<close>: the object \<open>{ok, child, code, signal}\<close>.
  \<open>code\<close> is \<open>number | null\<close>, \<open>signal\<close> is \<open>NodeJS.Signals | null\<close>.
\<close>

record spawn_result =
  ok :: bool
  child :: child_id
  code :: "int option"
  signal :: "string option"

text \<open>The values promises of this module are resolved with.\<close>

datatype val = V_Undefined | V_Result spawn_result | V_List "val list"

text \<open>
  The continuations of the module's async functions and promise callbacks. Each names
  the promise it will settle.
\<close>

datatype reaction =
    Close_Resume promise_id
  | Restart_Resume promise_id
  | Kill_Resume1 promise_id
  | Kill_Resume2 promise_id
  | Adopt promise_id
  | All_Elem promise_id nat
  | Fatal_Resume promise_id

datatype task = Reaction_Job reaction val | Thenable_Job promise_id promise_id

text \<open>The two \<open>child.once('close', ...)\<close> listeners of the module.\<close>

datatype listener = Spawn_Close promise_id | Despawn_Close promise_id

datatype pstate = Pending | Fulfilled val

record prom =
  pstate :: pstate
  reactions :: "reaction list"
  slots :: "val option list"

text \<open>
  A child process together with the \<open>Spawned_Process\<close> handle \<open>{child, closed}\<close> that
  \<open>spawn_process\<close> returned for it: \<open>closed\<close> is the handle's promise. \<open>exited\<close> says that the
  operating system has reported the close event, \<open>listeners\<close> are the \<open>once('close')\<close>
  listeners still attached.
\<close>

record proc =
  spawnargs :: "string list"
  closed :: promise_id
  exited :: bool
  killed :: bool
  listeners :: "listener list"

text \<open>
  The values a host fault can carry, as far as \<open>handle_unhandled_rejection\<close> tells them
  apart: an \<open>Error\<close> object with its message, \<open>undefined\<close>, any other value that converts
  to a string (\<open>Js_Other s\<close>, with \<open>s\<close> the string), and the values whose conversion to
  a string throws a \<open>TypeError\<close>: a \<open>Symbol\<close> and an object without \<open>toString\<close>, such
  as \<open>Object.create(null)\<close>.
\<close>

datatype js_value =
    Js_Error string
  | Js_Undefined
  | Js_Other string
  | Js_Symbol string
  | Js_Bare_Object

datatype js_throw = Type_Error string

datatype log_arg = Text string | Child_Info child_id | Error_Info js_value

datatype level = Error | Debug

record log_entry =
  lvl :: level
  label :: string
  args :: "log_arg list"

record state =
  procs :: "child_id \<Rightarrow> proc"
  next_child :: nat
  proms :: "promise_id \<Rightarrow> prom"
  next_prom :: nat
  global_spawn :: "child_id list"
  microtasks :: "task list"
  logged :: "log_entry list"
  spawned :: "(child_id \<times> promise_id) option"
  restarting :: "promise_id option"
  constructed :: bool
  rp_args :: "string list"
  rp_spawns :: "child_id list"
  client_registered :: "child_id list"
  in_turn :: bool

definition init :: state where
  "init = \<lparr>procs = (\<lambda>_. \<lparr>spawnargs = [], closed = 0, exited = False, killed = False,
                         listeners = []\<rparr>),
     next_child = 0,
     proms = (\<lambda>_. \<lparr>pstate = Pending, reactions = [], slots = []\<rparr>),
     next_prom = 0, global_spawn = [], microtasks = [], logged = [],
     spawned = None, restarting = None, constructed = False, rp_args = [],
     rp_spawns = [], client_registered = [], in_turn = False\<rparr>"

section \<open>Promises\<close>

definition new_promise :: "state \<Rightarrow> promise_id \<times> state" where
  "new_promise st =
     (next_prom st,
      st\<lparr>proms := (proms st)(next_prom st := \<lparr>pstate = Pending, reactions = [], slots = []\<rparr>),
         next_prom := Suc (next_prom st)\<rparr>)"

definition resolve_promise :: "promise_id \<Rightarrow> val \<Rightarrow> state \<Rightarrow> state" where
  "resolve_promise p v st =
     (case pstate (proms st p) of
        Fulfilled _ \<Rightarrow> st
      | Pending \<Rightarrow>
          st\<lparr>proms := (proms st)(p := (proms st p)\<lparr>pstate := Fulfilled v, reactions := []\<rparr>),
             microtasks := microtasks st @ map (\<lambda>r. Reaction_Job r v) (reactions (proms st p))\<rparr>)"

definition then_promise :: "promise_id \<Rightarrow> reaction \<Rightarrow> state \<Rightarrow> state" where
  "then_promise p r st =
     (case pstate (proms st p) of
        Pending \<Rightarrow>
          st\<lparr>proms := (proms st)(p := (proms st p)\<lparr>reactions := reactions (proms st p) @ [r]\<rparr>)\<rparr>
      | Fulfilled v \<Rightarrow> st\<lparr>microtasks := microtasks st @ [Reaction_Job r v]\<rparr>)"

section \<open>The global registry\<close>

definition log_call :: "level \<Rightarrow> string \<Rightarrow> log_arg list \<Rightarrow> state \<Rightarrow> state" where
  "log_call l lab as st = st\<lparr>logged := logged st @ [\<lparr>lvl = l, label = lab, args = as\<rparr>]\<rparr>"

definition set_add :: "child_id \<Rightarrow> child_id list \<Rightarrow> child_id list" where
  "set_add c xs = (if c \<in> set xs then xs else xs @ [c])"

definition set_delete :: "child_id \<Rightarrow> child_id list \<Rightarrow> child_id list" where
  "set_delete c xs = removeAll c xs"

definition register_global_spawn :: "child_id \<Rightarrow> state \<Rightarrow> state" where
  "register_global_spawn c st =
     (let st1 = (if c \<in> set (global_spawn st)
                 then log_call Error ''process''
                        [Text ''already registered global spawn:'', Child_Info c] st
                 else st)
      in st1\<lparr>global_spawn := set_add c (global_spawn st1)\<rparr>)"

definition unregister :: "child_id \<Rightarrow> state \<Rightarrow> state" where
  "unregister c st =
     (let st1 = (if c \<notin> set (global_spawn st)
                 then log_call Error ''process'' [Text ''spawn not registered:'', Child_Info c] st
                 else st)
      in st1\<lparr>global_spawn := set_delete c (global_spawn st1)\<rparr>)"

section \<open>Spawning and despawning\<close>

definition truthy :: "int option \<Rightarrow> bool" where
  "truthy cd = (case cd of None \<Rightarrow> False | Some n \<Rightarrow> n \<noteq> 0)"

definition close_result :: "child_id \<Rightarrow> int option \<Rightarrow> string option \<Rightarrow> spawn_result" where
  "close_result c cd sg =
     (if truthy cd then \<lparr>ok = False, child = c, code = cd, signal = sg\<rparr>
      else \<lparr>ok = True, child = c, code = cd, signal = sg\<rparr>)"

definition spawn_child_process ::
    "string list \<Rightarrow> promise_id \<Rightarrow> state \<Rightarrow> child_id \<times> state" where
  "spawn_child_process as cl st =
     (next_child st,
      st\<lparr>procs := (procs st)(next_child st :=
             \<lparr>spawnargs = as, closed = cl, exited = False, killed = False, listeners = []\<rparr>),
         next_child := Suc (next_child st)\<rparr>)"

definition once_close :: "child_id \<Rightarrow> listener \<Rightarrow> state \<Rightarrow> state" where
  "once_close c l st =
     st\<lparr>procs := (procs st)(c := (procs st c)\<lparr>listeners := listeners (procs st c) @ [l]\<rparr>)\<rparr>"

definition child_kill :: "child_id \<Rightarrow> state \<Rightarrow> state" where
  "child_kill c st =
     (if exited (procs st c) then st
      else st\<lparr>procs := (procs st)(c := (procs st c)\<lparr>killed := True\<rparr>)\<rparr>)"

definition spawn_process :: "string list \<Rightarrow> state \<Rightarrow> (child_id \<times> promise_id) \<times> state" where
  "spawn_process as st =
     (let (cl, st1) = new_promise st;
          (c, st2) = spawn_child_process as cl st1;
          st3 = register_global_spawn c st2;
          st4 = once_close c (Spawn_Close cl) st3
      in ((c, cl), st4))"

definition despawn :: "child_id \<Rightarrow> state \<Rightarrow> promise_id \<times> state" where
  "despawn c st =
     (let (cl, st1) = new_promise st;
          st2 = log_call Debug ''process'' [Text ''despawning'', Child_Info c] st1;
          st3 = once_close c (Despawn_Close cl) st2;
          st4 = child_kill c st3
      in (cl, st4))"

fun run_listener :: "child_id \<Rightarrow> int option \<Rightarrow> string option \<Rightarrow> listener \<Rightarrow> state \<Rightarrow> state" where
  "run_listener c cd sg (Spawn_Close cl) st =
     resolve_promise cl (V_Result (close_result c cd sg)) (unregister c st)"
| "run_listener c cd sg (Despawn_Close cl) st =
     resolve_promise cl (V_Result (close_result c cd sg)) st"

definition os_close :: "child_id \<Rightarrow> int option \<Rightarrow> string option \<Rightarrow> state \<Rightarrow> state" where
  "os_close c cd sg st =
     (if exited (procs st c) then st
      else foldl (\<lambda>s l. run_listener c cd sg l s)
             (st\<lparr>procs := (procs st)(c := (procs st c)\<lparr>exited := True, listeners := []\<rparr>)\<rparr>)
             (listeners (procs st c)))"

section \<open>\<open>despawn_all\<close> and the fatal-error handlers\<close>

text \<open>
  \<open>Array.from(global_spawn, (child) => despawn(child))\<close>: the registry is walked in insertion
  order and every despawn happens before \<open>Promise.all\<close> sees the array.
\<close>

fun despawn_each :: "child_id list \<Rightarrow> state \<Rightarrow> promise_id list \<times> state" where
  "despawn_each [] st = ([], st)"
| "despawn_each (c # cs) st =
     (let (p, st1) = despawn c st; (ps, st2) = despawn_each cs st1 in (p # ps, st2))"

fun then_each :: "promise_id \<Rightarrow> nat \<Rightarrow> promise_id list \<Rightarrow> state \<Rightarrow> state" where
  "then_each pa i [] st = st"
| "then_each pa i (p # ps) st = then_each pa (Suc i) ps (then_promise p (All_Elem pa i) st)"

text \<open>
  \<open>Promise.all\<close> of the platform: the aggregate promise keeps one slot per element; with no
  element it is fulfilled with the empty list at once, otherwise each element's fulfilment
  fills its slot and the last one fulfils the aggregate.
\<close>

definition set_slots :: "promise_id \<Rightarrow> val option list \<Rightarrow> state \<Rightarrow> state" where
  "set_slots pa sl st = st\<lparr>proms := (proms st)(pa := (proms st pa)\<lparr>slots := sl\<rparr>)\<rparr>"

definition promise_all :: "promise_id list \<Rightarrow> state \<Rightarrow> promise_id \<times> state" where
  "promise_all ps st =
     (let (pa, st1) = new_promise st;
          st2 = set_slots pa (replicate (length ps) None) st1
      in if ps = [] then (pa, resolve_promise pa (V_List []) st2)
         else (pa, then_each pa 0 ps st2))"

definition despawn_all :: "state \<Rightarrow> promise_id \<times> state" where
  "despawn_all st = (let (ps, st1) = despawn_each (global_spawn st) st in promise_all ps st1)"

definition handle_fatal_error :: "js_value \<Rightarrow> string \<Rightarrow> state \<Rightarrow> promise_id \<times> state" where
  "handle_fatal_error err lab st =
     (let (pf, st1) = new_promise st;
          st2 = log_call Error lab [Error_Info err] st1;
          (pa, st3) = despawn_all st2
      in (pf, then_promise pa (Fatal_Resume pf) st3))"

text \<open>\<open>err instanceof Error\<close>\<close>

fun is_Error :: "js_value \<Rightarrow> bool" where
  "is_Error (Js_Error _) = True"
| "is_Error _ = False"

text \<open>
  \<open>new Error(err)\<close>: the constructor converts a message other than \<open>undefined\<close> to a
  string, and that conversion throws for a \<open>Symbol\<close> and for an object without
  \<open>toString\<close>; with \<open>undefined\<close> the error has the empty message.
\<close>

fun new_Error :: "js_value \<Rightarrow> js_throw + js_value" where
  "new_Error (Js_Other s) = Inr (Js_Error s)"
| "new_Error Js_Undefined = Inr (Js_Error [])"
| "new_Error (Js_Error s) = Inr (Js_Error (''Error: '' @ s))"
| "new_Error (Js_Symbol d) = Inl (Type_Error ''Cannot convert a Symbol value to a string'')"
| "new_Error Js_Bare_Object = Inl (Type_Error ''Cannot convert object to primitive value'')"

text \<open>\<open>to_error_label?.(err) ?? 'unhandledRejection'\<close>\<close>

definition error_label :: "(js_value \<Rightarrow> string option) option \<Rightarrow> js_value \<Rightarrow> string" where
  "error_label to_error_label err =
     (case to_error_label of
        None \<Rightarrow> ''unhandledRejection''
      | Some f \<Rightarrow> (case f err of None \<Rightarrow> ''unhandledRejection'' | Some l \<Rightarrow> l))"

text \<open>
  The listener either returns the promise of \<open>handle_fatal_error\<close> or throws what
  \<open>new Error(err)\<close> throws, before \<open>handle_fatal_error\<close> is entered.
\<close>

definition handle_unhandled_rejection ::
    "(js_value \<Rightarrow> string option) option \<Rightarrow> js_value \<Rightarrow> state \<Rightarrow>
     js_throw + promise_id \<times> state" where
  "handle_unhandled_rejection to_error_label err st =
     (let lab = error_label to_error_label err
      in if is_Error err then Inr (handle_fatal_error err lab st)
         else (case new_Error err of
                 Inl t \<Rightarrow> Inl t
               | Inr e \<Rightarrow> Inr (handle_fatal_error e lab st)))"

text \<open>
  \<open>attach_process_error_handlers\<close> installs two listeners on the host process. The runtime
  calls the \<open>uncaughtException\<close> listener with the thrown value and the origin of the fault,
  which \<open>handle_fatal_error\<close> takes as its label, and the \<open>unhandledRejection\<close> listener
  with the rejected value.
\<close>

record handlers =
  on_uncaughtException :: "js_value \<Rightarrow> string \<Rightarrow> state \<Rightarrow> promise_id \<times> state"
  on_unhandledRejection :: "js_value \<Rightarrow> state \<Rightarrow> js_throw + promise_id \<times> state"

definition attach_process_error_handlers ::
    "(js_value \<Rightarrow> string option) option \<Rightarrow> handlers" where
  "attach_process_error_handlers to_error_label =
     \<lparr>on_uncaughtException = handle_fatal_error,
      on_unhandledRejection = handle_unhandled_rejection to_error_label\<rparr>"

section \<open>The restartable process\<close>

text \<open>
  The closure variables \<open>spawned\<close> and \<open>restarting\<close> of one \<open>spawn_restartable_process\<close>
  call are fields of the state. \<open>rp_spawns\<close> is a history variable: the children this
  restartable process has created, newest last.
\<close>

definition close :: "state \<Rightarrow> promise_id \<times> state" where
  "close st =
     (let (pc, st0) = new_promise st in
      case spawned st0 of
        None \<Rightarrow> (pc, resolve_promise pc V_Undefined st0)
      | Some (c, cl) \<Rightarrow>
          (let st1 = st0\<lparr>restarting := Some cl\<rparr>;
               st2 = child_kill c st1;
               st3 = st2\<lparr>spawned := None\<rparr>
           in (pc, then_promise cl (Close_Resume pc) st3)))"

definition restart_spawn :: "promise_id \<Rightarrow> state \<Rightarrow> state" where
  "restart_spawn pr st =
     (let (sp, st1) = spawn_process (rp_args st) st;
          st2 = st1\<lparr>spawned := Some sp, rp_spawns := rp_spawns st1 @ [fst sp]\<rparr>
      in resolve_promise pr V_Undefined st2)"

definition restart :: "state \<Rightarrow> promise_id \<times> state" where
  "restart st =
     (let (pr, st0) = new_promise st in
      case restarting st0 of
        Some r \<Rightarrow> (pr, st0\<lparr>microtasks := microtasks st0 @ [Thenable_Job pr r]\<rparr>)
      | None \<Rightarrow>
          (case spawned st0 of
             Some _ \<Rightarrow> (let (pc, st1) = close st0 in (pr, then_promise pc (Restart_Resume pr) st1))
           | None \<Rightarrow> (pr, restart_spawn pr st0)))"

definition kill :: "state \<Rightarrow> promise_id \<times> state" where
  "kill st =
     (let (pk, st0) = new_promise st in
      case restarting st0 of
        Some r \<Rightarrow> (pk, then_promise r (Kill_Resume1 pk) st0)
      | None \<Rightarrow> (let (pc, st1) = close st0 in (pk, then_promise pc (Kill_Resume2 pk) st1)))"

definition spawn_restartable_process :: "string list \<Rightarrow> state \<Rightarrow> state" where
  "spawn_restartable_process as st =
     snd (restart (st\<lparr>spawned := None, restarting := None, constructed := True,
                     rp_args := as, rp_spawns := []\<rparr>))"

section \<open>The event loop\<close>

definition fill_slot :: "promise_id \<Rightarrow> nat \<Rightarrow> val \<Rightarrow> state \<Rightarrow> state" where
  "fill_slot pa i v st =
     (let sl = (slots (proms st pa))[i := Some v];
          st1 = set_slots pa sl st
      in if list_all (\<lambda>x. x \<noteq> None) sl then resolve_promise pa (V_List (map the sl)) st1
         else st1)"

fun run_reaction :: "reaction \<Rightarrow> val \<Rightarrow> state \<Rightarrow> state" where
  "run_reaction (Close_Resume pc) v st = resolve_promise pc V_Undefined (st\<lparr>restarting := None\<rparr>)"
| "run_reaction (Restart_Resume pr) v st = restart_spawn pr st"
| "run_reaction (Kill_Resume1 pk) v st =
     (let (pc, st1) = close st in then_promise pc (Kill_Resume2 pk) st1)"
| "run_reaction (Kill_Resume2 pk) v st = resolve_promise pk V_Undefined st"
| "run_reaction (Adopt p) v st = resolve_promise p v st"
| "run_reaction (All_Elem pa i) v st = fill_slot pa i v st"
| "run_reaction (Fatal_Resume pf) v st = resolve_promise pf V_Undefined st"

fun run_task :: "task \<Rightarrow> state \<Rightarrow> state" where
  "run_task (Reaction_Job r v) st = run_reaction r v st"
| "run_task (Thenable_Job p r) st = then_promise r (Adopt p) st"

definition tick :: "state \<Rightarrow> state" where
  "tick st = (case microtasks st of [] \<Rightarrow> st | t # ts \<Rightarrow> run_task t (st\<lparr>microtasks := ts\<rparr>))"

fun drain :: "nat \<Rightarrow> state \<Rightarrow> state" where
  "drain 0 st = st"
| "drain (Suc n) st = (if microtasks st = [] then st else drain n (tick st))"

text \<open>
  The calls a client of the module can make. A client can only pass a child handle that
  exists, and holds the \<open>restart\<close> and \<open>kill\<close> closures only once
  \<open>spawn_restartable_process\<close> has returned them; the state holds the closure variables
  of one restartable process, so it is constructed at most once. \<open>register_global_spawn\<close>
  is exported: a client can call it on a handle and later call the closure it returned.
  \<open>client_registered\<close> is a history variable, the handles the client has passed to
  \<open>register_global_spawn\<close>; the client holds an unregistering closure for these only. The
  client does not mutate the exported set object itself. A listener that throws leaves
  the state as it was.
\<close>

datatype call =
    Call_Spawn_Process "string list"
  | Call_Construct "string list"
  | Call_Despawn child_id
  | Call_Despawn_All
  | Call_Restart
  | Call_Kill
  | Call_Fatal js_value string
  | Call_Unhandled "(js_value \<Rightarrow> string option) option" js_value
  | Call_Register child_id
  | Call_Unregister child_id

fun exec_call :: "call \<Rightarrow> state \<Rightarrow> state" where
  "exec_call (Call_Spawn_Process as) st = snd (spawn_process as st)"
| "exec_call (Call_Construct as) st =
     (if constructed st then st else spawn_restartable_process as st)"
| "exec_call (Call_Despawn c) st = (if c < next_child st then snd (despawn c st) else st)"
| "exec_call Call_Despawn_All st = snd (despawn_all st)"
| "exec_call Call_Restart st = (if constructed st then snd (restart st) else st)"
| "exec_call Call_Kill st = (if constructed st then snd (kill st) else st)"
| "exec_call (Call_Fatal e l) st = snd (handle_fatal_error e l st)"
| "exec_call (Call_Unhandled f e) st =
     (case handle_unhandled_rejection f e st of Inl t \<Rightarrow> st | Inr (p, st') \<Rightarrow> st')"
| "exec_call (Call_Register c) st =
     (if c < next_child st
      then (register_global_spawn c st)\<lparr>client_registered := set_add c (client_registered st)\<rparr>
      else st)"
| "exec_call (Call_Unregister c) st =
     (if c \<in> set (client_registered st) then unregister c st else st)"

definition exec_calls :: "call list \<Rightarrow> state \<Rightarrow> state" where
  "exec_calls cs st = foldl (\<lambda>s c. exec_call c s) st cs"

text \<open>
  One step of the single-threaded event loop. A turn of client code, or the close event of
  a child that has not closed yet, starts only when the microtask queue is empty and no
  client code is running (\<open>in_turn\<close>); after the turn the microtasks run until the queue
  is empty. Client code runs in a turn of its own or in a microtask of its own (a
  callback it gave to \<open>then\<close> or \<open>queueMicrotask\<close>, the rest of an async function after
  \<open>await\<close>), and such a microtask can stand anywhere among those of this module: a
  client call is possible in every state, each call running to completion.
\<close>

inductive step :: "state \<Rightarrow> state \<Rightarrow> bool" where
  begin_turn: "microtasks st = [] \<Longrightarrow> \<not> in_turn st \<Longrightarrow> step st (st\<lparr>in_turn := True\<rparr>)"
| client_call: "step st (exec_call c st)"
| end_turn: "in_turn st \<Longrightarrow> step st (st\<lparr>in_turn := False\<rparr>)"
| close_event: "microtasks st = [] \<Longrightarrow> \<not> in_turn st \<Longrightarrow> c < next_child st \<Longrightarrow>
     \<not> exited (procs st c) \<Longrightarrow> step st (os_close c cd sg st)"
| micro: "microtasks st \<noteq> [] \<Longrightarrow> \<not> in_turn st \<Longrightarrow> step st (tick st)"

definition reachable :: "state \<Rightarrow> bool" where
  "reachable st = step\<^sup>*\<^sup>* init st"

section \<open>Notions for the analysis\<close>

fun rtarget :: "reaction \<Rightarrow> promise_id" where
  "rtarget (Close_Resume p) = p"
| "rtarget (Restart_Resume p) = p"
| "rtarget (Kill_Resume1 p) = p"
| "rtarget (Kill_Resume2 p) = p"
| "rtarget (Adopt p) = p"
| "rtarget (All_Elem p i) = p"
| "rtarget (Fatal_Resume p) = p"

fun ttarget :: "task \<Rightarrow> promise_id" where
  "ttarget (Reaction_Job r v) = rtarget r"
| "ttarget (Thenable_Job p r) = p"

fun ltarget :: "listener \<Rightarrow> promise_id" where
  "ltarget (Spawn_Close p) = p"
| "ltarget (Despawn_Close p) = p"

definition untargeted_in :: "promise_id \<Rightarrow> task list \<Rightarrow> (promise_id \<Rightarrow> prom) \<Rightarrow> bool" where
  "untargeted_in q ts ps \<longleftrightarrow>
     (\<forall>t \<in> set ts. ttarget t \<noteq> q) \<and> (\<forall>p. \<forall>r \<in> set (reactions (ps p)). rtarget r \<noteq> q)"

abbreviation untargeted :: "promise_id \<Rightarrow> state \<Rightarrow> bool" where
  "untargeted q st \<equiv> untargeted_in q (microtasks st) (proms st)"

definition listened_only_in ::
    "promise_id \<Rightarrow> (child_id \<times> listener) set \<Rightarrow> (child_id \<Rightarrow> proc) \<Rightarrow> bool" where
  "listened_only_in q S pr \<longleftrightarrow>
     (\<forall>c. \<not> exited (pr c) \<longrightarrow> (\<forall>l \<in> set (listeners (pr c)). ltarget l = q \<longrightarrow> (c, l) \<in> S))"

abbreviation listened_only :: "promise_id \<Rightarrow> (child_id \<times> listener) set \<Rightarrow> state \<Rightarrow> bool" where
  "listened_only q S st \<equiv> listened_only_in q S (procs st)"

definition steady :: "promise_id \<Rightarrow> state \<Rightarrow> state \<Rightarrow> bool" where
  "steady q st st' \<longleftrightarrow>
     (untargeted q st \<longrightarrow> untargeted q st') \<and>
     (\<forall>S. listened_only q S st \<longrightarrow> listened_only q S st')"

definition calm :: "nat \<Rightarrow> promise_id set \<Rightarrow> state \<Rightarrow> state \<Rightarrow> bool" where
  "calm n X st st' \<longleftrightarrow>
     next_prom st \<le> next_prom st' \<and> next_child st \<le> next_child st' \<and>
     (\<forall>c < next_child st. closed (procs st' c) = closed (procs st c) \<and>
         exited (procs st' c) = exited (procs st c) \<and>
         set (listeners (procs st c)) \<subseteq> set (listeners (procs st' c))) \<and>
     (\<forall>q < n. q \<notin> X \<longrightarrow> pstate (proms st' q) = pstate (proms st q) \<and>
         slots (proms st' q) = slots (proms st q) \<and>
         set (reactions (proms st q)) \<subseteq> set (reactions (proms st' q)))"

definition handle_ok :: "state \<Rightarrow> child_id \<Rightarrow> bool" where
  "handle_ok st c \<longleftrightarrow>
     closed (procs st c) < next_prom st \<and>
     untargeted (closed (procs st c)) st \<and>
     listened_only (closed (procs st c)) {(c, Spawn_Close (closed (procs st c)))} st \<and>
     (if exited (procs st c)
      then (\<exists>r. pstate (proms st (closed (procs st c))) = Fulfilled (V_Result r) \<and>
                child r = c \<and> ok r = (\<not> truthy (code r)))
      else Spawn_Close (closed (procs st c)) \<in> set (listeners (procs st c)) \<and>
           pstate (proms st (closed (procs st c))) = Pending)"

definition fresh_ok :: "state \<Rightarrow> bool" where
  "fresh_ok st \<longleftrightarrow> (\<forall>q \<ge> next_prom st. untargeted q st \<and> listened_only q {} st)"

definition registry_ok :: "state \<Rightarrow> bool" where
  "registry_ok st \<longleftrightarrow>
     distinct (global_spawn st) \<and>
     (\<forall>c \<in> set (global_spawn st). c < next_child st) \<and>
     (\<forall>c \<in> set (client_registered st). c < next_child st) \<and>
     (\<forall>c. c \<notin> set (client_registered st) \<longrightarrow>
        (c \<in> set (global_spawn st) \<longleftrightarrow> c < next_child st \<and> \<not> exited (procs st c)))"

definition sane :: "state \<Rightarrow> bool" where
  "sane st \<longleftrightarrow> fresh_ok st \<and> (\<forall>c < next_child st. handle_ok st c) \<and> registry_ok st"

definition orphan :: "promise_id \<Rightarrow> state \<Rightarrow> bool" where
  "orphan q st \<longleftrightarrow> q < next_prom st \<and> untargeted q st \<and> listened_only q {} st"

definition turn_open :: state where
  "turn_open = init\<lparr>in_turn := True\<rparr>"

definition one_spawned :: state where
  "one_spawned = (exec_call (Call_Spawn_Process [''sleep'', ''1'']) turn_open)\<lparr>in_turn := False\<rparr>"

definition one_closed :: state where
  "one_closed = os_close 0 (Some 0) None one_spawned"

definition one_closed_turn :: state where
  "one_closed_turn = one_closed\<lparr>in_turn := True\<rparr>"



definition restart_then_kill :: state where
  "restart_then_kill =
     (exec_call Call_Kill (exec_call Call_Restart
        (exec_call (Call_Construct [''serve'']) turn_open)))\<lparr>in_turn := False\<rparr>"

definition restart_then_kill_end :: state where
  "restart_then_kill_end =
     tick (tick (tick (tick (os_close 0 None (Some ''SIGTERM'') restart_then_kill))))"

definition construct_then_kill_end :: state where
  "construct_then_kill_end =
     tick (tick (os_close 0 None (Some ''SIGTERM'')
       ((exec_call Call_Kill (exec_call (Call_Construct [''serve'']) turn_open))
          \<lparr>in_turn := False\<rparr>)))"

definition restart_then_kill_closed :: state where
  "restart_then_kill_closed = os_close 0 None (Some ''SIGTERM'') restart_then_kill"

definition despawning :: "child_id \<Rightarrow> log_entry" where
  "despawning c = \<lparr>lvl = Debug, label = ''process'', args = [Text ''despawning'', Child_Info c]\<rparr>"

definition two_spawned :: state where
  "two_spawned =
     exec_call (Call_Spawn_Process [''b'']) (exec_call (Call_Spawn_Process [''a'']) turn_open)"

fun treaction :: "task \<Rightarrow> reaction" where
  "treaction (Reaction_Job r v) = r"
| "treaction (Thenable_Job p r) = Adopt p"

definition kq :: "(reaction \<Rightarrow> bool) \<Rightarrow> state \<Rightarrow> task list" where
  "kq K st = filter (\<lambda>t. K (treaction t)) (microtasks st)"

definition kr :: "(reaction \<Rightarrow> bool) \<Rightarrow> state \<Rightarrow> promise_id \<Rightarrow> reaction list" where
  "kr K st p = filter K (reactions (proms st p))"

definition kept :: "(reaction \<Rightarrow> bool) \<Rightarrow> state \<Rightarrow> state \<Rightarrow> bool" where
  "kept K st st' \<longleftrightarrow> kq K st' = kq K st \<and> (\<forall>p. kr K st' p = kr K st p \<or> kr K st' p = [])"

definition outcome_of :: "child_id \<Rightarrow> val \<Rightarrow> bool" where
  "outcome_of c v =
     (case v of V_Result r \<Rightarrow> child r = c \<and> ok r = (\<not> truthy (code r)) | _ \<Rightarrow> False)"

definition drain_ok :: "promise_id \<Rightarrow> promise_id \<Rightarrow> child_id list \<Rightarrow> state \<Rightarrow> bool" where
  "drain_ok pa p0 cs st \<longleftrightarrow>
     pa < next_prom st \<and> p0 + length cs \<le> pa \<and>
     length (slots (proms st pa)) = length cs \<and>
     listened_only pa {} st \<and>
     (\<forall>t \<in> set (microtasks st). ttarget t = pa \<longrightarrow>
        (\<exists>i v. t = Reaction_Job (All_Elem pa i) v \<and> i < length cs \<and> exited (procs st (cs ! i)) \<and>
               outcome_of (cs ! i) v)) \<and>
     (\<forall>p. \<forall>r \<in> set (reactions (proms st p)). rtarget r = pa \<longrightarrow>
        (\<exists>i < length cs. r = All_Elem pa i \<and> p = p0 + i)) \<and>
     (\<forall>i < length cs. cs ! i < next_child st \<and> untargeted (p0 + i) st \<and>
        listened_only (p0 + i) {(cs ! i, Despawn_Close (p0 + i))} st) \<and>
     (\<forall>i < length cs. slots (proms st pa) ! i \<noteq> None \<longrightarrow>
        exited (procs st (cs ! i)) \<and>
        (\<exists>v. slots (proms st pa) ! i = Some v \<and> outcome_of (cs ! i) v)) \<and>
     (\<forall>v. pstate (proms st pa) = Fulfilled v \<longrightarrow>
        list_all (\<lambda>x. x \<noteq> None) (slots (proms st pa)) \<and>
        (\<exists>vs. v = V_List vs \<and> length vs = length cs \<and>
              (\<forall>i < length cs. outcome_of (cs ! i) (vs ! i))))"

definition waiting :: "promise_id \<Rightarrow> promise_id \<Rightarrow> child_id list \<Rightarrow> nat \<Rightarrow> state \<Rightarrow> bool" where
  "waiting pa p0 cs i st \<longleftrightarrow>
     \<not> exited (procs st (cs ! i)) \<and>
     Despawn_Close (p0 + i) \<in> set (listeners (procs st (cs ! i))) \<and>
     pstate (proms st (p0 + i)) = Pending \<and>
     All_Elem pa i \<in> set (reactions (proms st (p0 + i)))"

definition queued :: "promise_id \<Rightarrow> nat \<Rightarrow> state \<Rightarrow> bool" where
  "queued pa i st \<longleftrightarrow> (\<exists>v. Reaction_Job (All_Elem pa i) v \<in> set (microtasks st))"

definition drain_live :: "promise_id \<Rightarrow> promise_id \<Rightarrow> child_id list \<Rightarrow> state \<Rightarrow> bool" where
  "drain_live pa p0 cs st \<longleftrightarrow>
     (\<forall>i < length cs. waiting pa p0 cs i st \<or> queued pa i st \<or>
        slots (proms st pa) ! i \<noteq> None) \<and>
     (list_all (\<lambda>x. x \<noteq> None) (slots (proms st pa)) \<longrightarrow> pstate (proms st pa) \<noteq> Pending)"

definition one_spawned_turn :: state where
  "one_spawned_turn = one_spawned\<lparr>in_turn := True\<rparr>"

definition despawning_all :: state where
  "despawning_all = (snd (despawn_all one_spawned_turn))\<lparr>in_turn := False\<rparr>"

definition despawned_closed :: state where
  "despawned_closed = os_close 0 (Some 0) None despawning_all"

definition rp_idle :: state where
  "rp_idle = (exec_call (Call_Construct [''serve'']) turn_open)\<lparr>in_turn := False\<rparr>"

definition crashed :: state where
  "crashed = os_close 0 (Some 1) None rp_idle"

definition restart_first :: state where
  "restart_first = (exec_call Call_Restart (crashed\<lparr>in_turn := True\<rparr>))\<lparr>in_turn := False\<rparr>"

definition restart_gap :: state where
  "restart_gap = tick restart_first"

definition restart_second :: state where
  "restart_second = exec_call Call_Restart restart_gap"

definition restart_both :: state where
  "restart_both = tick restart_second"

section \<open>Analysis\<close>

subsection \<open>Primitives: fields\<close>

lemma new_promise_fields [simp]:
  "fst (new_promise st) = next_prom st"
  "next_prom (snd (new_promise st)) = Suc (next_prom st)"
  "next_child (snd (new_promise st)) = next_child st"
  "procs (snd (new_promise st)) = procs st"
  "global_spawn (snd (new_promise st)) = global_spawn st"
  "microtasks (snd (new_promise st)) = microtasks st"
  "logged (snd (new_promise st)) = logged st"
  "spawned (snd (new_promise st)) = spawned st"
  "restarting (snd (new_promise st)) = restarting st"
  "constructed (snd (new_promise st)) = constructed st"
  "client_registered (snd (new_promise st)) = client_registered st"
  "rp_args (snd (new_promise st)) = rp_args st"
  "rp_spawns (snd (new_promise st)) = rp_spawns st"
  "in_turn (snd (new_promise st)) = in_turn st"
  "proms (snd (new_promise st)) =
     (proms st)(next_prom st := \<lparr>pstate = Pending, reactions = [], slots = []\<rparr>)"
  by (simp_all add: new_promise_def)

lemma resolve_promise_fields [simp]:
  "next_prom (resolve_promise p v st) = next_prom st"
  "next_child (resolve_promise p v st) = next_child st"
  "procs (resolve_promise p v st) = procs st"
  "global_spawn (resolve_promise p v st) = global_spawn st"
  "logged (resolve_promise p v st) = logged st"
  "spawned (resolve_promise p v st) = spawned st"
  "restarting (resolve_promise p v st) = restarting st"
  "constructed (resolve_promise p v st) = constructed st"
  "client_registered (resolve_promise p v st) = client_registered st"
  "rp_args (resolve_promise p v st) = rp_args st"
  "rp_spawns (resolve_promise p v st) = rp_spawns st"
  "in_turn (resolve_promise p v st) = in_turn st"
  by (simp_all add: resolve_promise_def split: pstate.splits)

lemma then_promise_fields [simp]:
  "next_prom (then_promise p r st) = next_prom st"
  "next_child (then_promise p r st) = next_child st"
  "procs (then_promise p r st) = procs st"
  "global_spawn (then_promise p r st) = global_spawn st"
  "logged (then_promise p r st) = logged st"
  "spawned (then_promise p r st) = spawned st"
  "restarting (then_promise p r st) = restarting st"
  "constructed (then_promise p r st) = constructed st"
  "client_registered (then_promise p r st) = client_registered st"
  "rp_args (then_promise p r st) = rp_args st"
  "rp_spawns (then_promise p r st) = rp_spawns st"
  "in_turn (then_promise p r st) = in_turn st"
  by (simp_all add: then_promise_def split: pstate.splits)

lemma log_call_fields [simp]:
  "next_prom (log_call l lab as st) = next_prom st"
  "next_child (log_call l lab as st) = next_child st"
  "procs (log_call l lab as st) = procs st"
  "proms (log_call l lab as st) = proms st"
  "microtasks (log_call l lab as st) = microtasks st"
  "global_spawn (log_call l lab as st) = global_spawn st"
  "spawned (log_call l lab as st) = spawned st"
  "restarting (log_call l lab as st) = restarting st"
  "constructed (log_call l lab as st) = constructed st"
  "client_registered (log_call l lab as st) = client_registered st"
  "rp_args (log_call l lab as st) = rp_args st"
  "rp_spawns (log_call l lab as st) = rp_spawns st"
  "in_turn (log_call l lab as st) = in_turn st"
  "logged (log_call l lab as st) = logged st @ [\<lparr>lvl = l, label = lab, args = as\<rparr>]"
  by (simp_all add: log_call_def)

lemma register_global_spawn_fields [simp]:
  "next_prom (register_global_spawn c st) = next_prom st"
  "next_child (register_global_spawn c st) = next_child st"
  "procs (register_global_spawn c st) = procs st"
  "proms (register_global_spawn c st) = proms st"
  "microtasks (register_global_spawn c st) = microtasks st"
  "spawned (register_global_spawn c st) = spawned st"
  "restarting (register_global_spawn c st) = restarting st"
  "constructed (register_global_spawn c st) = constructed st"
  "client_registered (register_global_spawn c st) = client_registered st"
  "rp_args (register_global_spawn c st) = rp_args st"
  "rp_spawns (register_global_spawn c st) = rp_spawns st"
  "in_turn (register_global_spawn c st) = in_turn st"
  "global_spawn (register_global_spawn c st) = set_add c (global_spawn st)"
  by (simp_all add: register_global_spawn_def Let_def)

lemma unregister_fields [simp]:
  "next_prom (unregister c st) = next_prom st"
  "next_child (unregister c st) = next_child st"
  "procs (unregister c st) = procs st"
  "proms (unregister c st) = proms st"
  "microtasks (unregister c st) = microtasks st"
  "spawned (unregister c st) = spawned st"
  "restarting (unregister c st) = restarting st"
  "constructed (unregister c st) = constructed st"
  "client_registered (unregister c st) = client_registered st"
  "rp_args (unregister c st) = rp_args st"
  "rp_spawns (unregister c st) = rp_spawns st"
  "in_turn (unregister c st) = in_turn st"
  "global_spawn (unregister c st) = set_delete c (global_spawn st)"
  by (simp_all add: unregister_def Let_def)

lemma spawn_child_process_fields [simp]:
  "fst (spawn_child_process as cl st) = next_child st"
  "next_prom (snd (spawn_child_process as cl st)) = next_prom st"
  "next_child (snd (spawn_child_process as cl st)) = Suc (next_child st)"
  "proms (snd (spawn_child_process as cl st)) = proms st"
  "global_spawn (snd (spawn_child_process as cl st)) = global_spawn st"
  "microtasks (snd (spawn_child_process as cl st)) = microtasks st"
  "logged (snd (spawn_child_process as cl st)) = logged st"
  "spawned (snd (spawn_child_process as cl st)) = spawned st"
  "restarting (snd (spawn_child_process as cl st)) = restarting st"
  "constructed (snd (spawn_child_process as cl st)) = constructed st"
  "client_registered (snd (spawn_child_process as cl st)) = client_registered st"
  "rp_args (snd (spawn_child_process as cl st)) = rp_args st"
  "rp_spawns (snd (spawn_child_process as cl st)) = rp_spawns st"
  "in_turn (snd (spawn_child_process as cl st)) = in_turn st"
  "procs (snd (spawn_child_process as cl st)) =
     (procs st)(next_child st :=
        \<lparr>spawnargs = as, closed = cl, exited = False, killed = False, listeners = []\<rparr>)"
  by (simp_all add: spawn_child_process_def)

lemma once_close_fields [simp]:
  "next_prom (once_close c l st) = next_prom st"
  "next_child (once_close c l st) = next_child st"
  "proms (once_close c l st) = proms st"
  "global_spawn (once_close c l st) = global_spawn st"
  "microtasks (once_close c l st) = microtasks st"
  "logged (once_close c l st) = logged st"
  "spawned (once_close c l st) = spawned st"
  "restarting (once_close c l st) = restarting st"
  "constructed (once_close c l st) = constructed st"
  "client_registered (once_close c l st) = client_registered st"
  "rp_args (once_close c l st) = rp_args st"
  "rp_spawns (once_close c l st) = rp_spawns st"
  "in_turn (once_close c l st) = in_turn st"
  "procs (once_close c l st) =
     (procs st)(c := (procs st c)\<lparr>listeners := listeners (procs st c) @ [l]\<rparr>)"
  by (simp_all add: once_close_def)

lemma child_kill_fields [simp]:
  "next_prom (child_kill c st) = next_prom st"
  "next_child (child_kill c st) = next_child st"
  "proms (child_kill c st) = proms st"
  "global_spawn (child_kill c st) = global_spawn st"
  "microtasks (child_kill c st) = microtasks st"
  "logged (child_kill c st) = logged st"
  "spawned (child_kill c st) = spawned st"
  "restarting (child_kill c st) = restarting st"
  "constructed (child_kill c st) = constructed st"
  "client_registered (child_kill c st) = client_registered st"
  "rp_args (child_kill c st) = rp_args st"
  "rp_spawns (child_kill c st) = rp_spawns st"
  "in_turn (child_kill c st) = in_turn st"
  "exited (procs (child_kill c st) d) = exited (procs st d)"
  "listeners (procs (child_kill c st) d) = listeners (procs st d)"
  "closed (procs (child_kill c st) d) = closed (procs st d)"
  "spawnargs (procs (child_kill c st) d) = spawnargs (procs st d)"
  by (simp_all add: child_kill_def)

subsection \<open>Primitives: promises\<close>

lemma resolve_promise_pstate:
  "pstate (proms (resolve_promise p v st) q) =
     (if q = p \<and> pstate (proms st p) = Pending then Fulfilled v else pstate (proms st q))"
  by (simp add: resolve_promise_def split: pstate.splits)

lemma then_promise_pstate [simp]:
  "pstate (proms (then_promise p r st) q) = pstate (proms st q)"
  by (simp add: then_promise_def split: pstate.splits)

lemma resolve_promise_slots [simp]:
  "slots (proms (resolve_promise p v st) q) = slots (proms st q)"
  by (simp add: resolve_promise_def split: pstate.splits)

lemma then_promise_slots [simp]:
  "slots (proms (then_promise p r st) q) = slots (proms st q)"
  by (simp add: then_promise_def split: pstate.splits)

lemma untargeted_resolve:
  "untargeted q st \<Longrightarrow> untargeted q (resolve_promise p v st)"
  by (auto simp: untargeted_in_def resolve_promise_def split: pstate.splits) blast

lemma untargeted_then:
  "untargeted q st \<Longrightarrow> rtarget r \<noteq> q \<Longrightarrow> untargeted q (then_promise p r st)"
  by (auto simp: untargeted_in_def then_promise_def split: pstate.splits)

lemma untargeted_new:
  "untargeted_in q ts ps \<Longrightarrow>
   untargeted_in q ts (ps(n := \<lparr>pstate = Pending, reactions = [], slots = []\<rparr>))"
  by (auto simp: untargeted_in_def)

lemma untargeted_enqueue:
  "untargeted_in q ts ps \<Longrightarrow> ttarget t \<noteq> q \<Longrightarrow> untargeted_in q (ts @ [t]) ps"
  by (auto simp: untargeted_in_def)

lemma untargeted_slots:
  "untargeted_in q ts ps \<Longrightarrow> untargeted_in q ts (ps(n := (ps n)\<lparr>slots := sl\<rparr>))"
  by (auto simp: untargeted_in_def)

lemma listened_only_kill [simp]:
  "listened_only q S (child_kill c st) = listened_only q S st"
  by (simp add: listened_only_in_def)

lemma listened_only_once:
  "listened_only_in q S pr \<Longrightarrow> ltarget l = q \<longrightarrow> (c, l) \<in> S \<Longrightarrow>
   listened_only_in q S (pr(c := (pr c)\<lparr>listeners := listeners (pr c) @ [l]\<rparr>))"
  by (auto simp: listened_only_in_def)

lemma listened_only_spawn:
  "listened_only_in q S pr \<Longrightarrow>
   listened_only_in q S
     (pr(c := \<lparr>spawnargs = as, closed = cl, exited = False, killed = False, listeners = []\<rparr>))"
  by (auto simp: listened_only_in_def)

subsection \<open>Frames\<close>

lemma steady_refl: "steady q st st"
  by (simp add: steady_def)

lemma steady_trans: "steady q st st1 \<Longrightarrow> steady q st1 st2 \<Longrightarrow> steady q st st2"
  by (simp add: steady_def)

lemma steady_same:
  "microtasks st' = microtasks st \<Longrightarrow> proms st' = proms st \<Longrightarrow> procs st' = procs st \<Longrightarrow>
   steady q st st'"
  by (simp add: steady_def)

lemma steady_new_promise: "steady q st (snd (new_promise st))"
  by (auto simp: steady_def intro: untargeted_new)

lemma steady_resolve: "steady q st (resolve_promise p v st)"
  by (auto simp: steady_def intro: untargeted_resolve)

lemma steady_then: "rtarget r \<noteq> q \<Longrightarrow> steady q st (then_promise p r st)"
  by (auto simp: steady_def intro!: untargeted_then)

lemma steady_log: "steady q st (log_call l lab as st)"
  by (simp add: steady_def)

lemma steady_register: "steady q st (register_global_spawn c st)"
  by (simp add: steady_def)

lemma steady_unregister: "steady q st (unregister c st)"
  by (simp add: steady_def)

lemma steady_kill: "steady q st (child_kill c st)"
  by (simp add: steady_def)

lemma steady_once: "ltarget l \<noteq> q \<Longrightarrow> steady q st (once_close c l st)"
  by (auto simp: steady_def intro!: listened_only_once)

lemma steady_spawn_child: "steady q st (snd (spawn_child_process as cl st))"
  by (auto simp: steady_def intro!: listened_only_spawn)

lemma steady_enqueue: "ttarget t \<noteq> q \<Longrightarrow> steady q st (st\<lparr>microtasks := microtasks st @ [t]\<rparr>)"
  by (auto simp: steady_def intro!: untargeted_enqueue)

lemma set_slots_fields [simp]:
  "next_prom (set_slots pa sl st) = next_prom st"
  "next_child (set_slots pa sl st) = next_child st"
  "procs (set_slots pa sl st) = procs st"
  "global_spawn (set_slots pa sl st) = global_spawn st"
  "microtasks (set_slots pa sl st) = microtasks st"
  "logged (set_slots pa sl st) = logged st"
  "spawned (set_slots pa sl st) = spawned st"
  "restarting (set_slots pa sl st) = restarting st"
  "constructed (set_slots pa sl st) = constructed st"
  "client_registered (set_slots pa sl st) = client_registered st"
  "rp_args (set_slots pa sl st) = rp_args st"
  "rp_spawns (set_slots pa sl st) = rp_spawns st"
  "in_turn (set_slots pa sl st) = in_turn st"
  "pstate (proms (set_slots pa sl st) q) = pstate (proms st q)"
  "reactions (proms (set_slots pa sl st) q) = reactions (proms st q)"
  "slots (proms (set_slots pa sl st) q) = (if q = pa then sl else slots (proms st q))"
  by (simp_all add: set_slots_def)

lemma steady_slots: "steady q st (set_slots pa sl st)"
  by (auto simp: steady_def set_slots_def intro!: untargeted_slots)

subsection \<open>Compound operations\<close>

lemma spawn_process_fields [simp]:
  "fst (spawn_process as st) = (next_child st, next_prom st)"
  "next_prom (snd (spawn_process as st)) = Suc (next_prom st)"
  "next_child (snd (spawn_process as st)) = Suc (next_child st)"
  "microtasks (snd (spawn_process as st)) = microtasks st"
  "spawned (snd (spawn_process as st)) = spawned st"
  "restarting (snd (spawn_process as st)) = restarting st"
  "constructed (snd (spawn_process as st)) = constructed st"
  "client_registered (snd (spawn_process as st)) = client_registered st"
  "rp_args (snd (spawn_process as st)) = rp_args st"
  "rp_spawns (snd (spawn_process as st)) = rp_spawns st"
  "in_turn (snd (spawn_process as st)) = in_turn st"
  "global_spawn (snd (spawn_process as st)) = set_add (next_child st) (global_spawn st)"
  "proms (snd (spawn_process as st)) =
     (proms st)(next_prom st := \<lparr>pstate = Pending, reactions = [], slots = []\<rparr>)"
  "procs (snd (spawn_process as st)) =
     (procs st)(next_child st :=
        \<lparr>spawnargs = as, closed = next_prom st, exited = False, killed = False,
         listeners = [Spawn_Close (next_prom st)]\<rparr>)"
  by (simp_all add: spawn_process_def Let_def split_beta)

lemmas steady_steps =
  steady_trans [OF _ steady_new_promise] steady_trans [OF _ steady_resolve]
  steady_trans [OF _ steady_then] steady_trans [OF _ steady_log]
  steady_trans [OF _ steady_register] steady_trans [OF _ steady_unregister]
  steady_trans [OF _ steady_kill] steady_trans [OF _ steady_once]
  steady_trans [OF _ steady_spawn_child] steady_trans [OF _ steady_enqueue]
  steady_trans [OF _ steady_slots]

lemma steady_spawn_process: "q \<noteq> next_prom st \<Longrightarrow> steady q st (snd (spawn_process as st))"
  unfolding spawn_process_def Let_def split_beta snd_conv
  by (intro steady_steps steady_refl) simp

lemma despawn_fields [simp]:
  "fst (despawn c st) = next_prom st"
  "next_prom (snd (despawn c st)) = Suc (next_prom st)"
  "next_child (snd (despawn c st)) = next_child st"
  "microtasks (snd (despawn c st)) = microtasks st"
  "global_spawn (snd (despawn c st)) = global_spawn st"
  "spawned (snd (despawn c st)) = spawned st"
  "restarting (snd (despawn c st)) = restarting st"
  "constructed (snd (despawn c st)) = constructed st"
  "client_registered (snd (despawn c st)) = client_registered st"
  "rp_args (snd (despawn c st)) = rp_args st"
  "rp_spawns (snd (despawn c st)) = rp_spawns st"
  "in_turn (snd (despawn c st)) = in_turn st"
  "proms (snd (despawn c st)) =
     (proms st)(next_prom st := \<lparr>pstate = Pending, reactions = [], slots = []\<rparr>)"
  "exited (procs (snd (despawn c st)) d) = exited (procs st d)"
  "closed (procs (snd (despawn c st)) d) = closed (procs st d)"
  "listeners (procs (snd (despawn c st)) d) =
     (if d = c then listeners (procs st c) @ [Despawn_Close (next_prom st)]
      else listeners (procs st d))"
  "logged (snd (despawn c st)) =
     logged st @ [\<lparr>lvl = Debug, label = ''process'', args = [Text ''despawning'', Child_Info c]\<rparr>]"
  by (simp_all add: despawn_def Let_def split_beta)

lemma steady_despawn: "q \<noteq> next_prom st \<Longrightarrow> steady q st (snd (despawn c st))"
  unfolding despawn_def Let_def split_beta snd_conv
  by (intro steady_steps steady_refl) simp

subsection \<open>What a client call leaves alone\<close>

lemma calm_refl: "calm n X st st"
  by (simp add: calm_def)

lemma calm_trans:
  assumes a: "calm n X st st1" and b: "calm n X st1 st2"
  shows "calm n X st st2"
proof -
  have le: "next_prom st \<le> next_prom st1" "next_prom st1 \<le> next_prom st2"
    "next_child st \<le> next_child st1" "next_child st1 \<le> next_child st2"
    using a b by (simp_all add: calm_def)
  have c1: "\<And>c. c < next_child st \<Longrightarrow> closed (procs st1 c) = closed (procs st c) \<and>
         exited (procs st1 c) = exited (procs st c) \<and>
         set (listeners (procs st c)) \<subseteq> set (listeners (procs st1 c))"
    using a by (simp add: calm_def)
  have c2: "\<And>c. c < next_child st1 \<Longrightarrow> closed (procs st2 c) = closed (procs st1 c) \<and>
         exited (procs st2 c) = exited (procs st1 c) \<and>
         set (listeners (procs st1 c)) \<subseteq> set (listeners (procs st2 c))"
    using b by (simp add: calm_def)
  have q1: "\<And>q. q < n \<Longrightarrow> q \<notin> X \<Longrightarrow> pstate (proms st1 q) = pstate (proms st q) \<and>
         slots (proms st1 q) = slots (proms st q) \<and>
         set (reactions (proms st q)) \<subseteq> set (reactions (proms st1 q))"
    using a by (simp add: calm_def)
  have q2: "\<And>q. q < n \<Longrightarrow> q \<notin> X \<Longrightarrow> pstate (proms st2 q) = pstate (proms st1 q) \<and>
         slots (proms st2 q) = slots (proms st1 q) \<and>
         set (reactions (proms st1 q)) \<subseteq> set (reactions (proms st2 q))"
    using b by (simp add: calm_def)
  have c: "\<forall>c < next_child st. closed (procs st2 c) = closed (procs st c) \<and>
         exited (procs st2 c) = exited (procs st c) \<and>
         set (listeners (procs st c)) \<subseteq> set (listeners (procs st2 c))"
  proof (intro allI impI)
    fix c assume h: "c < next_child st"
    then have "c < next_child st1" using le by simp
    with c1 [OF h] c2 [of c]
    show "closed (procs st2 c) = closed (procs st c) \<and>
         exited (procs st2 c) = exited (procs st c) \<and>
         set (listeners (procs st c)) \<subseteq> set (listeners (procs st2 c))" by auto
  qed
  have q: "\<forall>q < n. q \<notin> X \<longrightarrow> pstate (proms st2 q) = pstate (proms st q) \<and>
         slots (proms st2 q) = slots (proms st q) \<and>
         set (reactions (proms st q)) \<subseteq> set (reactions (proms st2 q))"
  proof (intro allI impI)
    fix q assume h: "q < n" "q \<notin> X"
    from q1 [OF h] q2 [OF h]
    show "pstate (proms st2 q) = pstate (proms st q) \<and>
         slots (proms st2 q) = slots (proms st q) \<and>
         set (reactions (proms st q)) \<subseteq> set (reactions (proms st2 q))" by auto
  qed
  from le c q show ?thesis unfolding calm_def by simp
qed

lemma calm_new_promise: "n \<le> next_prom st \<Longrightarrow> calm n X st (snd (new_promise st))"
  by (simp add: calm_def)

lemma calm_resolve: "n \<le> p \<or> p \<in> X \<Longrightarrow> calm n X st (resolve_promise p v st)"
  by (auto simp: calm_def resolve_promise_def split: pstate.splits)

lemma calm_then: "calm n X st (then_promise p r st)"
  by (auto simp: calm_def then_promise_def split: pstate.splits)

lemma calm_log: "calm n X st (log_call l lab as st)"
  by (simp add: calm_def)

lemma calm_register: "calm n X st (register_global_spawn c st)"
  by (simp add: calm_def)

lemma calm_unregister: "calm n X st (unregister c st)"
  by (simp add: calm_def)

lemma calm_kill: "calm n X st (child_kill c st)"
  by (simp add: calm_def)

lemma calm_once: "calm n X st (once_close c l st)"
  by (auto simp: calm_def)

lemma calm_spawn_child: "calm n X st (snd (spawn_child_process as cl st))"
  by (simp add: calm_def)

lemma calm_enqueue: "calm n X st (st\<lparr>microtasks := microtasks st @ [t]\<rparr>)"
  by (simp add: calm_def)

lemma calm_slots: "n \<le> pa \<or> pa \<in> X \<Longrightarrow> calm n X st (set_slots pa sl st)"
  by (auto simp: calm_def)

lemma calm_same:
  "next_prom st' = next_prom st \<Longrightarrow> next_child st' = next_child st \<Longrightarrow>
   proms st' = proms st \<Longrightarrow> procs st' = procs st \<Longrightarrow> calm n X st st'"
  by (simp add: calm_def)

lemmas calm_steps =
  calm_trans [OF _ calm_new_promise] calm_trans [OF _ calm_resolve]
  calm_trans [OF _ calm_then] calm_trans [OF _ calm_log]
  calm_trans [OF _ calm_register]
  calm_trans [OF _ calm_kill] calm_trans [OF _ calm_once]
  calm_trans [OF _ calm_spawn_child] calm_trans [OF _ calm_enqueue]
  calm_trans [OF _ calm_slots]

lemma calm_spawn_process: "n \<le> next_prom st \<Longrightarrow> calm n X st (snd (spawn_process as st))"
  unfolding spawn_process_def Let_def split_beta snd_conv
  by (intro calm_steps calm_refl) simp

lemma calm_despawn: "n \<le> next_prom st \<Longrightarrow> calm n X st (snd (despawn c st))"
  unfolding despawn_def Let_def split_beta snd_conv
  by (intro calm_steps calm_refl) simp

subsection \<open>\<open>despawn_all\<close>\<close>

lemma despawn_each_next [simp]:
  "next_prom (snd (despawn_each cs st)) = next_prom st + length cs"
  "next_child (snd (despawn_each cs st)) = next_child st"
  by (induction cs arbitrary: st) (simp_all add: split_beta Let_def)

lemma despawn_each_fst:
  "fst (despawn_each cs st) = [next_prom st ..< next_prom st + length cs]"
  by (induction cs arbitrary: st) (simp_all add: split_beta Let_def upt_rec)

lemma steady_despawn_each:
  "q < next_prom st \<or> next_prom st + length cs \<le> q \<Longrightarrow> steady q st (snd (despawn_each cs st))"
proof (induction cs arbitrary: st)
  case Nil
  then show ?case by (simp add: steady_refl)
next
  case (Cons c cs)
  have "steady q st (snd (despawn c st))"
    using Cons.prems by (intro steady_despawn) auto
  moreover have "steady q (snd (despawn c st)) (snd (despawn_each cs (snd (despawn c st))))"
    using Cons.prems by (intro Cons.IH) auto
  ultimately show ?case
    by (simp add: split_beta Let_def steady_trans)
qed

lemma calm_despawn_each: "n \<le> next_prom st \<Longrightarrow> calm n X st (snd (despawn_each cs st))"
proof (induction cs arbitrary: st)
  case Nil
  then show ?case by (simp add: calm_refl)
next
  case (Cons c cs)
  have "calm n X st (snd (despawn c st))"
    using Cons.prems by (intro calm_despawn)
  moreover have "calm n X (snd (despawn c st)) (snd (despawn_each cs (snd (despawn c st))))"
    using Cons.prems by (intro Cons.IH) auto
  ultimately show ?case
    by (simp add: split_beta Let_def calm_trans)
qed

lemma then_each_fields [simp]:
  "next_prom (then_each pa i ps st) = next_prom st"
  "next_child (then_each pa i ps st) = next_child st"
  "procs (then_each pa i ps st) = procs st"
  "global_spawn (then_each pa i ps st) = global_spawn st"
  "logged (then_each pa i ps st) = logged st"
  "spawned (then_each pa i ps st) = spawned st"
  "restarting (then_each pa i ps st) = restarting st"
  "constructed (then_each pa i ps st) = constructed st"
  "client_registered (then_each pa i ps st) = client_registered st"
  "rp_args (then_each pa i ps st) = rp_args st"
  "rp_spawns (then_each pa i ps st) = rp_spawns st"
  "in_turn (then_each pa i ps st) = in_turn st"
  "pstate (proms (then_each pa i ps st) q) = pstate (proms st q)"
  "slots (proms (then_each pa i ps st) q) = slots (proms st q)"
  by (induction ps arbitrary: i st) simp_all

lemma steady_then_each: "q \<noteq> pa \<Longrightarrow> steady q st (then_each pa i ps st)"
proof (induction ps arbitrary: i st)
  case Nil
  then show ?case by (simp add: steady_refl)
next
  case (Cons p ps)
  have "steady q st (then_promise p (All_Elem pa i) st)"
    using Cons.prems by (intro steady_then) simp
  with Cons.IH [OF Cons.prems] show ?case
    by (simp add: steady_trans)
qed

lemma calm_then_each: "calm n X st (then_each pa i ps st)"
proof (induction ps arbitrary: i st)
  case Nil
  show ?case by (simp add: calm_refl)
next
  case (Cons p ps)
  from calm_trans [OF calm_then Cons.IH] show ?case by simp
qed

lemma promise_all_next [simp]:
  "fst (promise_all ps st) = next_prom st"
  "next_prom (snd (promise_all ps st)) = Suc (next_prom st)"
  "next_child (snd (promise_all ps st)) = next_child st"
  by (simp_all add: promise_all_def Let_def split_beta)

lemma steady_promise_all: "q \<noteq> next_prom st \<Longrightarrow> steady q st (snd (promise_all ps st))"
  unfolding promise_all_def Let_def split_beta
  by (cases "ps = []"; simp only: if_True if_False snd_conv refl)
    (intro steady_steps steady_refl steady_trans [OF _ steady_then_each]; simp)+

lemma calm_promise_all: "n \<le> next_prom st \<Longrightarrow> calm n X st (snd (promise_all ps st))"
  unfolding promise_all_def Let_def split_beta
  by (cases "ps = []"; simp only: if_True if_False snd_conv refl)
    (intro calm_steps calm_refl calm_trans [OF _ calm_then_each]; simp)+

lemma despawn_all_next [simp]:
  "fst (despawn_all st) = next_prom st + length (global_spawn st)"
  "next_prom (snd (despawn_all st)) = Suc (next_prom st + length (global_spawn st))"
  "next_child (snd (despawn_all st)) = next_child st"
  by (simp_all add: despawn_all_def Let_def split_beta)

lemma steady_despawn_all:
  "q < next_prom st \<or> Suc (next_prom st + length (global_spawn st)) \<le> q \<Longrightarrow>
   steady q st (snd (despawn_all st))"
  unfolding despawn_all_def Let_def split_beta
  by (rule steady_trans [OF steady_despawn_each steady_promise_all]) auto

lemma calm_despawn_all: "n \<le> next_prom st \<Longrightarrow> calm n X st (snd (despawn_all st))"
  unfolding despawn_all_def Let_def split_beta
  by (rule calm_trans [OF calm_despawn_each calm_promise_all]) auto

lemma handle_fatal_error_next [simp]:
  "fst (handle_fatal_error e l st) = next_prom st"
  "next_prom (snd (handle_fatal_error e l st)) = Suc (Suc (next_prom st + length (global_spawn st)))"
  "next_child (snd (handle_fatal_error e l st)) = next_child st"
  by (simp_all add: handle_fatal_error_def Let_def split_beta)

lemma steady_handle_fatal_error:
  "q < next_prom st \<or> Suc (Suc (next_prom st + length (global_spawn st))) \<le> q \<Longrightarrow>
   steady q st (snd (handle_fatal_error e l st))"
  unfolding handle_fatal_error_def Let_def split_beta snd_conv
  apply (rule steady_trans [OF _ steady_then])
   apply (rule steady_trans [OF _ steady_despawn_all])
    apply (rule steady_trans [OF _ steady_log])
    apply (rule steady_new_promise)
   apply auto
  done

lemma calm_handle_fatal_error:
  "n \<le> next_prom st \<Longrightarrow> calm n X st (snd (handle_fatal_error e l st))"
  unfolding handle_fatal_error_def Let_def split_beta snd_conv
  apply (rule calm_trans [OF _ calm_then])
  apply (rule calm_trans [OF _ calm_despawn_all])
   apply (rule calm_trans [OF _ calm_log])
   apply (rule calm_new_promise)
   apply auto
  done

subsection \<open>The restartable process, case by case\<close>

lemma close_None:
  "spawned st = None \<Longrightarrow>
   close st = (next_prom st, resolve_promise (next_prom st) V_Undefined (snd (new_promise st)))"
  by (simp add: close_def split_beta)

lemma close_Some:
  "spawned st = Some (c, cl) \<Longrightarrow>
   close st = (next_prom st,
     then_promise cl (Close_Resume (next_prom st))
       ((child_kill c ((snd (new_promise st))\<lparr>restarting := Some cl\<rparr>))\<lparr>spawned := None\<rparr>))"
  by (simp add: close_def split_beta Let_def)

lemma restart_spawn_eq:
  "restart_spawn pr st =
     resolve_promise pr V_Undefined
       ((snd (spawn_process (rp_args st) st))
          \<lparr>spawned := Some (next_child st, next_prom st),
           rp_spawns := rp_spawns st @ [next_child st]\<rparr>)"
  by (simp add: restart_spawn_def split_beta Let_def)

lemma restart_restarting:
  "restarting st = Some r \<Longrightarrow>
   restart st = (next_prom st,
     (snd (new_promise st))\<lparr>microtasks := microtasks (snd (new_promise st)) @
        [Thenable_Job (next_prom st) r]\<rparr>)"
  by (simp add: restart_def split_beta)

lemma restart_running:
  "restarting st = None \<Longrightarrow> spawned st = Some sp \<Longrightarrow>
   restart st = (next_prom st,
     then_promise (Suc (next_prom st)) (Restart_Resume (next_prom st))
       (snd (close (snd (new_promise st)))))"
  by (cases sp) (simp add: restart_def split_beta close_Some)

lemma restart_idle:
  "restarting st = None \<Longrightarrow> spawned st = None \<Longrightarrow>
   restart st = (next_prom st, restart_spawn (next_prom st) (snd (new_promise st)))"
  by (simp add: restart_def split_beta)

lemma kill_restarting:
  "restarting st = Some r \<Longrightarrow>
   kill st = (next_prom st, then_promise r (Kill_Resume1 (next_prom st)) (snd (new_promise st)))"
  by (simp add: kill_def split_beta)

lemma kill_not_restarting:
  "restarting st = None \<Longrightarrow>
   kill st = (next_prom st,
     then_promise (Suc (next_prom st)) (Kill_Resume2 (next_prom st))
       (snd (close (snd (new_promise st)))))"
  by (cases "spawned st") (auto simp: kill_def split_beta close_Some close_None)

lemma steady_upd:
  "steady q st st1 \<Longrightarrow> steady q st (st1\<lparr>restarting := b\<rparr>)"
  "steady q st st1 \<Longrightarrow> steady q st (st1\<lparr>spawned := a\<rparr>)"
  "steady q st st1 \<Longrightarrow> steady q st (st1\<lparr>in_turn := d\<rparr>)"
  "steady q st st1 \<Longrightarrow> steady q st (st1\<lparr>client_registered := g\<rparr>)"
  "steady q st st1 \<Longrightarrow> steady q st (st1\<lparr>spawned := a, rp_spawns := e\<rparr>)"
  by (simp_all add: steady_def)

lemma calm_upd:
  "calm n X st st1 \<Longrightarrow> calm n X st (st1\<lparr>restarting := b\<rparr>)"
  "calm n X st st1 \<Longrightarrow> calm n X st (st1\<lparr>spawned := a\<rparr>)"
  "calm n X st st1 \<Longrightarrow> calm n X st (st1\<lparr>in_turn := d\<rparr>)"
  "calm n X st st1 \<Longrightarrow> calm n X st (st1\<lparr>client_registered := g\<rparr>)"
  "calm n X st st1 \<Longrightarrow> calm n X st (st1\<lparr>spawned := a, rp_spawns := e\<rparr>)"
  by (simp_all add: calm_def)

lemma close_next [simp]:
  "fst (close st) = next_prom st"
  "next_prom (snd (close st)) = Suc (next_prom st)"
  "next_child (snd (close st)) = next_child st"
  "global_spawn (snd (close st)) = global_spawn st"
  "logged (snd (close st)) = logged st"
  "constructed (snd (close st)) = constructed st"
  "client_registered (snd (close st)) = client_registered st"
  "rp_args (snd (close st)) = rp_args st"
  "rp_spawns (snd (close st)) = rp_spawns st"
  "in_turn (snd (close st)) = in_turn st"
  "spawned (snd (close st)) = None"
  by (cases "spawned st"; auto simp: close_None close_Some)+

lemma steady_close: "q \<noteq> next_prom st \<Longrightarrow> steady q st (snd (close st))"
proof (cases "spawned st")
  case None
  show ?thesis unfolding close_None [OF None] snd_conv
    by (intro steady_steps steady_refl)
next
  case (Some a)
  obtain c cl where a: "a = (c, cl)" by (cases a)
  assume "q \<noteq> next_prom st"
  then show ?thesis unfolding close_Some [OF Some [unfolded a]] snd_conv
    by (intro steady_steps steady_upd steady_refl) simp
qed

lemma calm_close: "n \<le> next_prom st \<Longrightarrow> calm n X st (snd (close st))"
proof (cases "spawned st")
  case None
  assume "n \<le> next_prom st"
  then show ?thesis unfolding close_None [OF None] snd_conv
    by (intro calm_steps calm_refl) simp_all
next
  case (Some a)
  obtain c cl where a: "a = (c, cl)" by (cases a)
  assume "n \<le> next_prom st"
  then show ?thesis unfolding close_Some [OF Some [unfolded a]] snd_conv
    by (intro calm_steps calm_upd calm_refl) simp_all
qed

lemma restart_spawn_next [simp]:
  "next_prom (restart_spawn pr st) = Suc (next_prom st)"
  "next_child (restart_spawn pr st) = Suc (next_child st)"
  "spawned (restart_spawn pr st) = Some (next_child st, next_prom st)"
  "restarting (restart_spawn pr st) = restarting st"
  "rp_spawns (restart_spawn pr st) = rp_spawns st @ [next_child st]"
  "constructed (restart_spawn pr st) = constructed st"
  "client_registered (restart_spawn pr st) = client_registered st"
  "rp_args (restart_spawn pr st) = rp_args st"
  "in_turn (restart_spawn pr st) = in_turn st"
  "global_spawn (restart_spawn pr st) = set_add (next_child st) (global_spawn st)"
  by (simp_all add: restart_spawn_eq)

lemma steady_restart_spawn: "q \<noteq> next_prom st \<Longrightarrow> steady q st (restart_spawn pr st)"
  unfolding restart_spawn_eq
  by (intro steady_steps steady_upd steady_spawn_process)

lemma calm_restart_spawn:
  "n \<le> next_prom st \<Longrightarrow> n \<le> pr \<or> pr \<in> X \<Longrightarrow> calm n X st (restart_spawn pr st)"
  unfolding restart_spawn_eq
  by (intro calm_steps calm_upd calm_spawn_process)

lemma restart_next [simp]:
  "fst (restart st) = next_prom st"
  "next_prom (snd (restart st)) =
     (if restarting st = None then Suc (Suc (next_prom st)) else Suc (next_prom st))"
  by (cases "restarting st"; cases "spawned st";
      auto simp: restart_restarting restart_running restart_idle)+

lemma steady_restart:
  assumes "q < next_prom st \<or> next_prom (snd (restart st)) \<le> q"
  shows "steady q st (snd (restart st))"
proof (cases "restarting st")
  case (Some r)
  have "q \<noteq> next_prom st" using assms Some by auto
  then show ?thesis unfolding restart_restarting [OF Some] snd_conv
    by (intro steady_steps steady_refl) simp
next
  case None
  have q: "q \<noteq> next_prom st" "q \<noteq> Suc (next_prom st)" using assms None by auto
  show ?thesis
  proof (cases "spawned st")
    case (Some sp)
    have "steady q (snd (new_promise st)) (snd (close (snd (new_promise st))))"
      using q by (intro steady_close) simp
    then have "steady q st (snd (close (snd (new_promise st))))"
      by (rule steady_trans [OF steady_new_promise])
    then show ?thesis unfolding restart_running [OF None Some] snd_conv
      using q by (intro steady_trans [OF _ steady_then]) simp_all
  next
    case n: None
    have "steady q (snd (new_promise st)) (restart_spawn (next_prom st) (snd (new_promise st)))"
      using q by (intro steady_restart_spawn) simp
    then show ?thesis unfolding restart_idle [OF None n] snd_conv
      by (rule steady_trans [OF steady_new_promise])
  qed
qed

lemma calm_restart:
  assumes "n \<le> next_prom st"
  shows "calm n X st (snd (restart st))"
proof (cases "restarting st")
  case (Some r)
  show ?thesis unfolding restart_restarting [OF Some] snd_conv
    using assms by (intro calm_steps calm_refl)
next
  case None
  show ?thesis
  proof (cases "spawned st")
    case (Some sp)
    have "calm n X (snd (new_promise st)) (snd (close (snd (new_promise st))))"
      using assms by (intro calm_close) simp
    then have "calm n X st (snd (close (snd (new_promise st))))"
      by (rule calm_trans [OF calm_new_promise [OF assms]])
    then show ?thesis unfolding restart_running [OF None Some] snd_conv
      by (intro calm_trans [OF _ calm_then])
  next
    case n: None
    have "calm n X (snd (new_promise st)) (restart_spawn (next_prom st) (snd (new_promise st)))"
      using assms by (intro calm_restart_spawn) simp_all
    then show ?thesis unfolding restart_idle [OF None n] snd_conv
      by (rule calm_trans [OF calm_new_promise [OF assms]])
  qed
qed

lemma kill_next [simp]:
  "fst (kill st) = next_prom st"
  "next_prom (snd (kill st)) =
     (if restarting st = None then Suc (Suc (next_prom st)) else Suc (next_prom st))"
  by (cases "restarting st"; auto simp: kill_restarting kill_not_restarting)+

lemma steady_kill_call:
  assumes "q < next_prom st \<or> next_prom (snd (kill st)) \<le> q"
  shows "steady q st (snd (kill st))"
proof (cases "restarting st")
  case (Some r)
  have "q \<noteq> next_prom st" using assms Some by auto
  then show ?thesis unfolding kill_restarting [OF Some] snd_conv
    by (intro steady_steps steady_refl) simp
next
  case None
  have q: "q \<noteq> next_prom st" "q \<noteq> Suc (next_prom st)" using assms None by auto
  have "steady q (snd (new_promise st)) (snd (close (snd (new_promise st))))"
    using q by (intro steady_close) simp
  then have "steady q st (snd (close (snd (new_promise st))))"
    by (rule steady_trans [OF steady_new_promise])
  then show ?thesis unfolding kill_not_restarting [OF None] snd_conv
    using q by (intro steady_trans [OF _ steady_then]) simp_all
qed

lemma calm_kill_call:
  assumes "n \<le> next_prom st"
  shows "calm n X st (snd (kill st))"
proof (cases "restarting st")
  case (Some r)
  show ?thesis unfolding kill_restarting [OF Some] snd_conv
    using assms by (intro calm_steps calm_refl)
next
  case None
  have "calm n X (snd (new_promise st)) (snd (close (snd (new_promise st))))"
    using assms by (intro calm_close) simp
  then have "calm n X st (snd (close (snd (new_promise st))))"
    by (rule calm_trans [OF calm_new_promise [OF assms]])
  then show ?thesis unfolding kill_not_restarting [OF None] snd_conv
    by (intro calm_trans [OF _ calm_then])
qed

subsection \<open>Client calls\<close>

lemma steady_same_upd:
  "microtasks st' = microtasks st \<Longrightarrow> proms st' = proms st \<Longrightarrow> procs st' = procs st \<Longrightarrow>
   steady q st' st'' \<Longrightarrow> steady q st st''"
  by (simp add: steady_def)

lemma calm_same_upd:
  "next_prom st' = next_prom st \<Longrightarrow> next_child st' = next_child st \<Longrightarrow>
   proms st' = proms st \<Longrightarrow> procs st' = procs st \<Longrightarrow> calm n X st' st'' \<Longrightarrow> calm n X st st''"
  by (simp add: calm_def)

lemma spawn_restartable_process_next [simp]:
  "next_prom (spawn_restartable_process as st) = Suc (Suc (next_prom st))"
  by (simp add: spawn_restartable_process_def)

lemma steady_spawn_restartable_process:
  "q < next_prom st \<or> Suc (Suc (next_prom st)) \<le> q \<Longrightarrow>
   steady q st (spawn_restartable_process as st)"
  unfolding spawn_restartable_process_def
  by (rule steady_same_upd [OF _ _ _ steady_restart]) simp_all

lemma calm_spawn_restartable_process:
  "n \<le> next_prom st \<Longrightarrow> calm n X st (spawn_restartable_process as st)"
  unfolding spawn_restartable_process_def
  by (rule calm_same_upd [OF _ _ _ _ calm_restart]) simp_all

lemma exec_unhandled_cases:
  "exec_call (Call_Unhandled f err) st = st \<or>
   (\<exists>e l. exec_call (Call_Unhandled f err) st = snd (handle_fatal_error e l st))"
proof (cases "handle_unhandled_rejection f err st")
  case (Inl t)
  then show ?thesis by simp
next
  case (Inr x)
  then have "\<exists>e l. x = handle_fatal_error e l st"
    by (auto simp: handle_unhandled_rejection_def Let_def split: if_splits sum.splits)
  with Inr show ?thesis by (auto simp: split_beta)
qed

lemma exec_register:
  "c < next_child st \<Longrightarrow> exec_call (Call_Register c) st =
     (register_global_spawn c st)\<lparr>client_registered := set_add c (client_registered st)\<rparr>"
  "\<not> c < next_child st \<Longrightarrow> exec_call (Call_Register c) st = st"
  by simp_all

lemma next_prom_exec_call: "next_prom st \<le> next_prom (exec_call c st)"
proof (cases c)
  case (Call_Unhandled f e)
  with exec_unhandled_cases [of f e st] show ?thesis by auto
qed simp_all

lemma steady_exec_call:
  assumes "q < next_prom st \<or> next_prom (exec_call c st) \<le> q"
  shows "steady q st (exec_call c st)"
proof (cases c)
  case (Call_Spawn_Process as)
  with assms show ?thesis by (auto intro!: steady_spawn_process)
next
  case (Call_Construct as)
  with assms show ?thesis
    by (auto intro!: steady_spawn_restartable_process steady_refl)
next
  case (Call_Despawn d)
  with assms show ?thesis by (auto intro!: steady_despawn steady_refl)
next
  case Call_Despawn_All
  with assms show ?thesis by (auto intro!: steady_despawn_all)
next
  case Call_Restart
  with assms show ?thesis
    by (auto intro!: steady_restart steady_refl)
next
  case Call_Kill
  with assms show ?thesis
    by (auto intro!: steady_kill_call steady_refl)
next
  case (Call_Fatal e l)
  with assms show ?thesis by (auto intro!: steady_handle_fatal_error)
next
  case (Call_Unhandled f e)
  with exec_unhandled_cases [of f e st] assms show ?thesis
    by (auto intro!: steady_handle_fatal_error steady_refl)
next
  case (Call_Register d)
  show ?thesis
  proof (cases "d < next_child st")
    case True
    show ?thesis unfolding Call_Register exec_register(1) [OF True]
      by (intro steady_upd steady_register)
  next
    case False
    show ?thesis unfolding Call_Register exec_register(2) [OF False] by (rule steady_refl)
  qed
next
  case (Call_Unregister d)
  then show ?thesis by (auto intro!: steady_unregister steady_refl)
qed

lemma calm_exec_call:
  assumes "n \<le> next_prom st"
  shows "calm n X st (exec_call c st)"
proof (cases c)
  case (Call_Unhandled f e)
  with exec_unhandled_cases [of f e st] assms show ?thesis
    by (auto simp: calm_handle_fatal_error calm_refl)
next
  case (Call_Register d)
  show ?thesis
  proof (cases "d < next_child st")
    case True
    show ?thesis unfolding Call_Register exec_register(1) [OF True]
      by (intro calm_upd calm_register)
  next
    case False
    show ?thesis unfolding Call_Register exec_register(2) [OF False] by (rule calm_refl)
  qed
next
  case (Call_Unregister d)
  then show ?thesis by (auto intro!: calm_unregister calm_refl)
qed (use assms in \<open>simp_all add: calm_spawn_process calm_spawn_restartable_process calm_despawn
    calm_despawn_all calm_restart calm_kill_call calm_handle_fatal_error calm_refl\<close>)

subsection \<open>Microtasks\<close>

lemma fill_slot_next [simp]:
  "next_prom (fill_slot pa i v st) = next_prom st"
  "next_child (fill_slot pa i v st) = next_child st"
  "procs (fill_slot pa i v st) = procs st"
  "global_spawn (fill_slot pa i v st) = global_spawn st"
  "spawned (fill_slot pa i v st) = spawned st"
  "restarting (fill_slot pa i v st) = restarting st"
  "rp_spawns (fill_slot pa i v st) = rp_spawns st"
  "constructed (fill_slot pa i v st) = constructed st"
  "client_registered (fill_slot pa i v st) = client_registered st"
  "in_turn (fill_slot pa i v st) = in_turn st"
  by (simp_all add: fill_slot_def Let_def)

lemma steady_fill_slot: "steady q st (fill_slot pa i v st)"
  unfolding fill_slot_def Let_def
  by (simp only: if_distrib [of "steady q st"]) (auto intro!: steady_steps steady_refl)

lemma calm_fill_slot: "n \<le> pa \<or> pa \<in> X \<Longrightarrow> calm n X st (fill_slot pa i v st)"
  unfolding fill_slot_def Let_def
  by (simp only: if_distrib [of "calm n X st"]) (auto intro!: calm_steps calm_refl)

lemma next_prom_run_reaction: "next_prom st \<le> next_prom (run_reaction r v st)"
  by (cases r) (simp_all add: split_beta)

lemma steady_run_reaction:
  assumes "rtarget r \<noteq> q" "q < next_prom st \<or> next_prom (run_reaction r v st) \<le> q"
  shows "steady q st (run_reaction r v st)"
proof (cases r)
  case (Close_Resume pc)
  then show ?thesis by (auto intro!: steady_steps steady_upd steady_refl)
next
  case (Restart_Resume pr)
  with assms show ?thesis by (auto intro!: steady_restart_spawn)
next
  case (Kill_Resume1 pk)
  have q: "q \<noteq> next_prom st" using assms Kill_Resume1 by (auto simp: split_beta)
  have "steady q st (snd (close st))" using q by (intro steady_close)
  then have "steady q st (then_promise (next_prom st) (Kill_Resume2 pk) (snd (close st)))"
    using assms Kill_Resume1 by (intro steady_trans [OF _ steady_then]) simp_all
  with Kill_Resume1 show ?thesis by (simp add: split_beta)
next
  case (Kill_Resume2 pk)
  then show ?thesis by (simp add: steady_resolve)
next
  case (Adopt p)
  then show ?thesis by (simp add: steady_resolve)
next
  case (All_Elem pa i)
  then show ?thesis by (simp add: steady_fill_slot)
next
  case (Fatal_Resume pf)
  then show ?thesis by (simp add: steady_resolve)
qed

lemma calm_run_reaction:
  assumes "n \<le> next_prom st" "rtarget r \<in> X"
  shows "calm n X st (run_reaction r v st)"
proof (cases r)
  case (Close_Resume pc)
  with assms show ?thesis by (auto intro!: calm_steps calm_upd calm_refl)
next
  case (Restart_Resume pr)
  with assms show ?thesis by (simp add: calm_restart_spawn)
next
  case (Kill_Resume1 pk)
  have "calm n X st (snd (close st))" using assms by (intro calm_close)
  then have "calm n X st (then_promise (next_prom st) (Kill_Resume2 pk) (snd (close st)))"
    by (intro calm_trans [OF _ calm_then])
  with Kill_Resume1 show ?thesis by (simp add: split_beta)
next
  case (Kill_Resume2 pk)
  with assms show ?thesis by (simp add: calm_resolve)
next
  case (Adopt p)
  with assms show ?thesis by (simp add: calm_resolve)
next
  case (All_Elem pa i)
  with assms show ?thesis by (simp add: calm_fill_slot)
next
  case (Fatal_Resume pf)
  with assms show ?thesis by (simp add: calm_resolve)
qed

lemma steady_run_task:
  "ttarget t \<noteq> q \<Longrightarrow> q < next_prom st \<or> next_prom (run_task t st) \<le> q \<Longrightarrow>
   steady q st (run_task t st)"
  by (cases t) (simp_all add: steady_run_reaction steady_then)

lemma calm_run_task:
  "n \<le> next_prom st \<Longrightarrow> ttarget t \<in> X \<Longrightarrow> calm n X st (run_task t st)"
  by (cases t) (simp_all add: calm_run_reaction calm_then)

lemma tick_Cons: "microtasks st = t # ts \<Longrightarrow> tick st = run_task t (st\<lparr>microtasks := ts\<rparr>)"
  by (simp add: tick_def)

lemma tick_Nil: "microtasks st = [] \<Longrightarrow> tick st = st"
  by (simp add: tick_def)

lemma steady_pop: "microtasks st = t # ts \<Longrightarrow> steady q st (st\<lparr>microtasks := ts\<rparr>)"
  by (simp add: steady_def untargeted_in_def)

lemma steady_tick:
  assumes "untargeted q st" "q < next_prom st \<or> next_prom (tick st) \<le> q"
  shows "steady q st (tick st)"
proof (cases "microtasks st")
  case Nil
  then show ?thesis by (simp add: tick_Nil steady_refl)
next
  case (Cons t ts)
  have "ttarget t \<noteq> q" using assms(1) Cons by (simp add: untargeted_in_def)
  then have "steady q (st\<lparr>microtasks := ts\<rparr>) (run_task t (st\<lparr>microtasks := ts\<rparr>))"
    using assms(2) by (intro steady_run_task) (simp_all add: tick_Cons [OF Cons])
  then show ?thesis unfolding tick_Cons [OF Cons]
    by (rule steady_trans [OF steady_pop [OF Cons]])
qed

lemma calm_tick:
  assumes "microtasks st = t # ts" "n \<le> next_prom st" "ttarget t \<in> X"
  shows "calm n X st (tick st)"
proof -
  have "calm n X (st\<lparr>microtasks := ts\<rparr>) (run_task t (st\<lparr>microtasks := ts\<rparr>))"
    using assms by (intro calm_run_task) simp_all
  then show ?thesis unfolding tick_Cons [OF assms(1)]
    by (rule calm_same_upd [rotated -1]) simp_all
qed

subsection \<open>The close event\<close>

lemma run_listener_fields [simp]:
  "next_prom (run_listener c cd sg l st) = next_prom st"
  "next_child (run_listener c cd sg l st) = next_child st"
  "procs (run_listener c cd sg l st) = procs st"
  "spawned (run_listener c cd sg l st) = spawned st"
  "restarting (run_listener c cd sg l st) = restarting st"
  "constructed (run_listener c cd sg l st) = constructed st"
  "client_registered (run_listener c cd sg l st) = client_registered st"
  "rp_args (run_listener c cd sg l st) = rp_args st"
  "rp_spawns (run_listener c cd sg l st) = rp_spawns st"
  "in_turn (run_listener c cd sg l st) = in_turn st"
  by (cases l; simp)+

lemma run_listener_pstate:
  "pstate (proms (run_listener c cd sg l st) q) =
     (if q = ltarget l \<and> pstate (proms st q) = Pending
      then Fulfilled (V_Result (close_result c cd sg)) else pstate (proms st q))"
  by (cases l) (auto simp: resolve_promise_pstate)

lemma run_listener_registry:
  "global_spawn (run_listener c cd sg l st) =
     (case l of Spawn_Close _ \<Rightarrow> removeAll c (global_spawn st) | Despawn_Close _ \<Rightarrow> global_spawn st)"
  by (cases l) (simp_all add: set_delete_def)

lemma steady_run_listener: "steady q st (run_listener c cd sg l st)"
  by (cases l) (auto intro!: steady_steps steady_refl)

lemma run_listeners_fields [simp]:
  "next_prom (foldl (\<lambda>s l. run_listener c cd sg l s) st ls) = next_prom st"
  "next_child (foldl (\<lambda>s l. run_listener c cd sg l s) st ls) = next_child st"
  "procs (foldl (\<lambda>s l. run_listener c cd sg l s) st ls) = procs st"
  "spawned (foldl (\<lambda>s l. run_listener c cd sg l s) st ls) = spawned st"
  "restarting (foldl (\<lambda>s l. run_listener c cd sg l s) st ls) = restarting st"
  "constructed (foldl (\<lambda>s l. run_listener c cd sg l s) st ls) = constructed st"
  "client_registered (foldl (\<lambda>s l. run_listener c cd sg l s) st ls) = client_registered st"
  "rp_args (foldl (\<lambda>s l. run_listener c cd sg l s) st ls) = rp_args st"
  "rp_spawns (foldl (\<lambda>s l. run_listener c cd sg l s) st ls) = rp_spawns st"
  "in_turn (foldl (\<lambda>s l. run_listener c cd sg l s) st ls) = in_turn st"
  by (induction ls arbitrary: st; simp)+

lemma run_listeners_pstate:
  "pstate (proms (foldl (\<lambda>s l. run_listener c cd sg l s) st ls) q) =
     (if q \<in> ltarget ` set ls \<and> pstate (proms st q) = Pending
      then Fulfilled (V_Result (close_result c cd sg)) else pstate (proms st q))"
  by (induction ls arbitrary: st) (auto simp: run_listener_pstate)

lemma run_listeners_registry:
  "global_spawn (foldl (\<lambda>s l. run_listener c cd sg l s) st ls) =
     (if \<exists>cl. Spawn_Close cl \<in> set ls then removeAll c (global_spawn st) else global_spawn st)"
  by (induction ls arbitrary: st) (auto simp: run_listener_registry split: listener.splits)

lemma steady_run_listeners: "steady q st (foldl (\<lambda>s l. run_listener c cd sg l s) st ls)"
proof (induction ls arbitrary: st)
  case Nil
  show ?case by (simp add: steady_refl)
next
  case (Cons l ls)
  show ?case using steady_trans [OF steady_run_listener Cons.IH] by simp
qed

lemma steady_exit:
  "steady q st (st\<lparr>procs := (procs st)(c := (procs st c)\<lparr>exited := True, listeners := []\<rparr>)\<rparr>)"
  by (simp add: steady_def listened_only_in_def)

lemma os_close_live:
  "\<not> exited (procs st c) \<Longrightarrow>
   os_close c cd sg st =
     foldl (\<lambda>s l. run_listener c cd sg l s)
       (st\<lparr>procs := (procs st)(c := (procs st c)\<lparr>exited := True, listeners := []\<rparr>)\<rparr>)
       (listeners (procs st c))"
  by (simp add: os_close_def)

lemma os_close_fields [simp]:
  "next_prom (os_close c cd sg st) = next_prom st"
  "next_child (os_close c cd sg st) = next_child st"
  "spawned (os_close c cd sg st) = spawned st"
  "restarting (os_close c cd sg st) = restarting st"
  "constructed (os_close c cd sg st) = constructed st"
  "client_registered (os_close c cd sg st) = client_registered st"
  "rp_args (os_close c cd sg st) = rp_args st"
  "rp_spawns (os_close c cd sg st) = rp_spawns st"
  "in_turn (os_close c cd sg st) = in_turn st"
  by (simp_all add: os_close_def)

lemma os_close_procs:
  "\<not> exited (procs st c) \<Longrightarrow>
   procs (os_close c cd sg st) = (procs st)(c := (procs st c)\<lparr>exited := True, listeners := []\<rparr>)"
  by (simp add: os_close_live)

lemma os_close_pstate:
  "\<not> exited (procs st c) \<Longrightarrow>
   pstate (proms (os_close c cd sg st) q) =
     (if q \<in> ltarget ` set (listeners (procs st c)) \<and> pstate (proms st q) = Pending
      then Fulfilled (V_Result (close_result c cd sg)) else pstate (proms st q))"
  by (simp add: os_close_live run_listeners_pstate)

lemma os_close_registry:
  "\<not> exited (procs st c) \<Longrightarrow>
   global_spawn (os_close c cd sg st) =
     (if \<exists>cl. Spawn_Close cl \<in> set (listeners (procs st c))
      then removeAll c (global_spawn st) else global_spawn st)"
  by (simp add: os_close_live run_listeners_registry)

lemma steady_os_close: "steady q st (os_close c cd sg st)"
proof (cases "exited (procs st c)")
  case True
  then show ?thesis by (simp add: os_close_def steady_refl)
next
  case False
  show ?thesis unfolding os_close_live [OF False]
    by (rule steady_trans [OF steady_exit steady_run_listeners])
qed

lemma sane_cong:
  "microtasks st' = microtasks st \<Longrightarrow> proms st' = proms st \<Longrightarrow> procs st' = procs st \<Longrightarrow>
   next_prom st' = next_prom st \<Longrightarrow> next_child st' = next_child st \<Longrightarrow>
   global_spawn st' = global_spawn st \<Longrightarrow> client_registered st' = client_registered st \<Longrightarrow>
   sane st \<Longrightarrow> sane st'"
  by (simp add: sane_def fresh_ok_def handle_ok_def registry_ok_def)

lemma sane_init: "sane init"
  by (simp add: sane_def fresh_ok_def registry_ok_def init_def untargeted_in_def
      listened_only_in_def)

lemma sane_frame:
  assumes sane: "sane st"
    and calm: "calm (next_prom st) X st st'"
    and X: "\<And>c. c < next_child st \<Longrightarrow> closed (procs st c) \<notin> X"
    and nc: "next_child st' = next_child st"
    and gs: "global_spawn st' = global_spawn st"
    and cr: "client_registered st' = client_registered st"
    and steady: "\<And>q. q < next_prom st \<or> next_prom st' \<le> q \<Longrightarrow> untargeted q st \<Longrightarrow>
                   steady q st st'"
  shows "sane st'"
proof -
  have le: "next_prom st \<le> next_prom st'" using calm by (simp add: calm_def)
  have ch: "\<And>c. c < next_child st \<Longrightarrow> closed (procs st' c) = closed (procs st c) \<and>
         exited (procs st' c) = exited (procs st c) \<and>
         set (listeners (procs st c)) \<subseteq> set (listeners (procs st' c))"
    using calm by (simp add: calm_def)
  have ps: "\<And>q. q < next_prom st \<Longrightarrow> q \<notin> X \<Longrightarrow> pstate (proms st' q) = pstate (proms st q)"
    using calm by (simp add: calm_def)
  have f: "fresh_ok st'"
    unfolding fresh_ok_def
  proof (intro allI impI)
    fix q assume q: "next_prom st' \<le> q"
    then have "next_prom st \<le> q" using le by simp
    then have u: "untargeted q st" "listened_only q {} st"
      using sane by (simp_all add: sane_def fresh_ok_def)
    from steady [OF _ u(1)] q have "steady q st st'" by simp
    with u show "untargeted q st' \<and> listened_only q {} st'" by (simp add: steady_def)
  qed
  have h: "\<forall>c < next_child st'. handle_ok st' c"
  proof (intro allI impI)
    fix c assume "c < next_child st'"
    then have c: "c < next_child st" using nc by simp
    then have hk: "handle_ok st c" using sane by (simp add: sane_def)
    let ?cl = "closed (procs st c)"
    have lt: "?cl < next_prom st" and u: "untargeted ?cl st"
      and l: "listened_only ?cl {(c, Spawn_Close ?cl)} st"
      using hk by (simp_all add: handle_ok_def)
    from steady [OF _ u] lt have s: "steady ?cl st st'" by simp
    have p: "pstate (proms st' ?cl) = pstate (proms st ?cl)"
      using ps [OF lt X [OF c]] .
    show "handle_ok st' c"
      using hk ch [OF c] s u l lt le p
      by (auto simp: handle_ok_def steady_def)
  qed
  have r: "registry_ok st'"
    using sane ch nc gs cr by (auto simp: sane_def registry_ok_def)
  from f h r show ?thesis by (simp add: sane_def)
qed

lemma listened_only_fresh_child:
  "listened_only_in q {} pr \<Longrightarrow>
   listened_only_in q {(c, Spawn_Close q)}
     (pr(c := \<lparr>spawnargs = as, closed = cl, exited = False, killed = False,
               listeners = [Spawn_Close q]\<rparr>))"
  by (auto simp: listened_only_in_def)

lemma sane_spawn_process:
  assumes sane: "sane st"
  shows "sane (snd (spawn_process as st))"
proof -
  let ?st = "snd (spawn_process as st)"
  let ?n = "next_prom st" and ?c = "next_child st"
  have fr: "\<And>q. ?n \<le> q \<Longrightarrow> untargeted q st \<and> listened_only q {} st"
    using sane by (simp add: sane_def fresh_ok_def)
  have f: "fresh_ok ?st"
    unfolding fresh_ok_def
  proof (intro allI impI)
    fix q assume q: "next_prom ?st \<le> q"
    then have "steady q st ?st" by (intro steady_spawn_process) simp
    with fr [of q] q show "untargeted q ?st \<and> listened_only q {} ?st"
      by (simp add: steady_def)
  qed
  have h: "\<forall>c < next_child ?st. handle_ok ?st c"
  proof (intro allI impI)
    fix c assume "c < next_child ?st"
    then consider "c < ?c" | "c = ?c" by fastforce
    then show "handle_ok ?st c"
    proof cases
      case 1
      then have hk: "handle_ok st c" using sane by (simp add: sane_def)
      let ?cl = "closed (procs st c)"
      have lt: "?cl < ?n" using hk by (simp add: handle_ok_def)
      then have "steady ?cl st ?st" by (intro steady_spawn_process) simp
      with hk 1 lt show ?thesis
        by (auto simp: handle_ok_def steady_def)
    next
      case 2
      have "untargeted ?n ?st" using fr [of ?n] by (simp add: untargeted_new)
      moreover have "listened_only ?n {(?c, Spawn_Close ?n)} ?st"
        using fr [of ?n] by (simp add: listened_only_fresh_child)
      ultimately show ?thesis using 2 by (simp add: handle_ok_def)
    qed
  qed
  have "?c \<notin> set (global_spawn st)" "?c \<notin> set (client_registered st)"
    using sane by (auto simp: sane_def registry_ok_def)
  then have r: "registry_ok ?st"
    using sane by (auto simp: sane_def registry_ok_def set_add_def less_Suc_eq)
  from f h r show ?thesis by (simp add: sane_def)
qed

lemma sane_os_close:
  assumes sane: "sane st" and c: "c < next_child st" and live: "\<not> exited (procs st c)"
  shows "sane (os_close c cd sg st)"
proof -
  let ?st = "os_close c cd sg st"
  have hc: "handle_ok st c" using sane c by (simp add: sane_def)
  have f: "fresh_ok ?st"
    using sane steady_os_close [of _ st c cd sg] by (simp add: sane_def fresh_ok_def steady_def)
  have h: "\<forall>d < next_child ?st. handle_ok ?st d"
  proof (intro allI impI)
    fix d assume "d < next_child ?st"
    then have d: "d < next_child st" by simp
    then have hk: "handle_ok st d" using sane by (simp add: sane_def)
    let ?cl = "closed (procs st d)"
    have s: "steady ?cl st ?st" by (rule steady_os_close)
    show "handle_ok ?st d"
    proof (cases "d = c")
      case True
      have "Spawn_Close ?cl \<in> set (listeners (procs st c))" "pstate (proms st ?cl) = Pending"
        using hk live True by (simp_all add: handle_ok_def)
      then have "pstate (proms ?st ?cl) = Fulfilled (V_Result (close_result c cd sg))"
        using live by (force simp: os_close_pstate)
      then show ?thesis using hk s True live
        by (auto simp: handle_ok_def steady_def os_close_procs close_result_def)
    next
      case False
      have "listened_only ?cl {(d, Spawn_Close ?cl)} st" using hk by (simp add: handle_ok_def)
      then have "?cl \<notin> ltarget ` set (listeners (procs st c))"
        using live False by (auto simp: listened_only_in_def)
      then have "pstate (proms ?st ?cl) = pstate (proms st ?cl)"
        using live by (simp add: os_close_pstate)
      then show ?thesis using hk s False live
        by (auto simp: handle_ok_def steady_def os_close_procs)
    qed
  qed
  have "\<exists>cl. Spawn_Close cl \<in> set (listeners (procs st c))"
    using hc live by (auto simp: handle_ok_def)
  then have r: "registry_ok ?st"
    using sane live c
    by (auto simp: sane_def registry_ok_def os_close_registry os_close_procs distinct_removeAll)
  from f h r show ?thesis by (simp add: sane_def)
qed

lemma despawn_each_client_registered [simp]:
  "client_registered (snd (despawn_each cs st)) = client_registered st"
  by (induction cs arbitrary: st) (simp_all add: split_beta Let_def)

lemma then_each_client_registered [simp]:
  "client_registered (then_each pa i ps st) = client_registered st"
  by (induction ps arbitrary: i st) simp_all

lemma set_slots_client_registered [simp]:
  "client_registered (set_slots pa sl st) = client_registered st"
  by (simp add: set_slots_def)

lemma promise_all_client_registered [simp]:
  "client_registered (snd (promise_all ps st)) = client_registered st"
  by (simp add: promise_all_def Let_def split_beta)

lemma despawn_all_client_registered [simp]:
  "client_registered (snd (despawn_all st)) = client_registered st"
  by (simp add: despawn_all_def Let_def split_beta)

lemma handle_fatal_error_client_registered [simp]:
  "client_registered (snd (handle_fatal_error e l st)) = client_registered st"
  by (simp add: handle_fatal_error_def Let_def split_beta)

lemma restart_client_registered [simp]:
  "client_registered (snd (restart st)) = client_registered st"
  by (cases "restarting st"; cases "spawned st")
    (auto simp: restart_restarting restart_running restart_idle)

lemma kill_client_registered [simp]:
  "client_registered (snd (kill st)) = client_registered st"
  by (cases "restarting st"; simp add: kill_restarting kill_not_restarting)

lemma run_reaction_client_registered [simp]:
  "client_registered (run_reaction r v st) = client_registered st"
  by (cases r) (simp_all add: split_beta)

lemma run_task_client_registered [simp]:
  "client_registered (run_task t st) = client_registered st"
  by (cases t) simp_all

lemma tick_client_registered [simp]:
  "client_registered (tick st) = client_registered st"
  by (simp add: tick_def split: list.splits)

lemma sane_pop: "sane st \<Longrightarrow> microtasks st = t # ts \<Longrightarrow> sane (st\<lparr>microtasks := ts\<rparr>)"
  by (rule sane_frame [where X = "{}"])
    (auto simp: calm_def intro: steady_pop)

lemma sane_restart_spawn:
  assumes sane: "sane st" and pr: "pr < next_prom st"
    and ncl: "\<And>c. c < next_child st \<Longrightarrow> closed (procs st c) \<noteq> pr"
  shows "sane (restart_spawn pr st)"
proof -
  let ?st1 = "snd (spawn_process (rp_args st) st)"
  let ?st2 = "?st1\<lparr>spawned := Some (next_child st, next_prom st),
                   rp_spawns := rp_spawns st @ [next_child st]\<rparr>"
  have "sane ?st1" using sane by (rule sane_spawn_process)
  then have w2: "sane ?st2" by (rule sane_cong [rotated -1]) simp_all
  have "sane (resolve_promise pr V_Undefined ?st2)"
  proof (rule sane_frame [OF w2, where X = "{pr}"])
    show "calm (next_prom ?st2) {pr} ?st2 (resolve_promise pr V_Undefined ?st2)"
      by (rule calm_resolve) simp
    show "closed (procs ?st2 c) \<notin> {pr}" if "c < next_child ?st2" for c
      using that ncl [of c] pr by (auto simp: less_Suc_eq)
    show "steady q ?st2 (resolve_promise pr V_Undefined ?st2)" for q
      by (rule steady_resolve)
  qed simp_all
  then show ?thesis by (simp add: restart_spawn_eq)
qed

lemma sane_new_promise: "sane st \<Longrightarrow> sane (snd (new_promise st))"
  by (rule sane_frame [where X = "{}"])
    (auto intro: calm_new_promise steady_new_promise)

lemma close_lt: "sane st \<Longrightarrow> c < next_child st \<Longrightarrow> closed (procs st c) < next_prom st"
  by (simp add: sane_def handle_ok_def)

lemma restart_child_free:
  "restarting st \<noteq> None \<or> spawned st \<noteq> None \<Longrightarrow>
   next_child (snd (restart st)) = next_child st \<and>
   global_spawn (snd (restart st)) = global_spawn st"
  by (cases "restarting st"; cases "spawned st")
    (auto simp: restart_restarting restart_running)

lemma sane_restart:
  assumes sane: "sane st"
  shows "sane (snd (restart st))"
proof (cases "restarting st = None \<and> spawned st = None")
  case True
  have "sane (restart_spawn (next_prom st) (snd (new_promise st)))"
  proof (rule sane_restart_spawn [OF sane_new_promise [OF sane]])
    show "closed (procs (snd (new_promise st)) c) \<noteq> next_prom st"
      if "c < next_child (snd (new_promise st))" for c
      using close_lt [OF sane, of c] that by simp
  qed simp
  with True show ?thesis by (simp add: restart_idle)
next
  case False
  then have cf: "next_child (snd (restart st)) = next_child st"
    "global_spawn (snd (restart st)) = global_spawn st"
    using restart_child_free [of st] by auto
  show ?thesis
    by (rule sane_frame [OF sane, where X = "{}"])
      (auto intro: calm_restart steady_restart simp: cf)
qed

lemma kill_child_free [simp]:
  "next_child (snd (kill st)) = next_child st"
  "global_spawn (snd (kill st)) = global_spawn st"
  by (cases "restarting st"; simp add: kill_restarting kill_not_restarting)+

lemma sane_kill: "sane st \<Longrightarrow> sane (snd (kill st))"
  by (rule sane_frame [where X = "{}"])
    (auto intro: calm_kill_call steady_kill_call)

lemma sane_despawn: "sane st \<Longrightarrow> sane (snd (despawn c st))"
  by (rule sane_frame [where X = "{}"])
    (auto intro: calm_despawn steady_despawn)

lemma despawn_each_registry [simp]:
  "global_spawn (snd (despawn_each cs st)) = global_spawn st"
  by (induction cs arbitrary: st) (simp_all add: split_beta Let_def)

lemma promise_all_registry [simp]:
  "global_spawn (snd (promise_all ps st)) = global_spawn st"
  by (simp add: promise_all_def Let_def split_beta)

lemma despawn_all_registry [simp]:
  "global_spawn (snd (despawn_all st)) = global_spawn st"
  by (simp add: despawn_all_def Let_def split_beta)

lemma handle_fatal_error_registry [simp]:
  "global_spawn (snd (handle_fatal_error e l st)) = global_spawn st"
  by (simp add: handle_fatal_error_def Let_def split_beta)

lemma sane_despawn_all: "sane st \<Longrightarrow> sane (snd (despawn_all st))"
  by (rule sane_frame [where X = "{}"])
    (auto intro: calm_despawn_all steady_despawn_all)

lemma sane_handle_fatal_error: "sane st \<Longrightarrow> sane (snd (handle_fatal_error e l st))"
  by (rule sane_frame [where X = "{}"])
    (auto intro: calm_handle_fatal_error steady_handle_fatal_error)

lemma sane_exec_call:
  assumes sane: "sane st"
  shows "sane (exec_call c st)"
proof (cases c)
  case (Call_Spawn_Process as)
  with sane show ?thesis by (simp add: sane_spawn_process)
next
  case (Call_Construct as)
  let ?st0 = "st\<lparr>spawned := None, restarting := None, constructed := True, rp_args := as,
                 rp_spawns := []\<rparr>"
  have "sane ?st0" using sane by (rule sane_cong [rotated -1]) simp_all
  then have "sane (snd (restart ?st0))" by (rule sane_restart)
  with sane Call_Construct show ?thesis by (simp add: spawn_restartable_process_def)
next
  case (Call_Despawn d)
  with sane show ?thesis by (simp add: sane_despawn)
next
  case Call_Despawn_All
  with sane show ?thesis by (simp add: sane_despawn_all)
next
  case Call_Restart
  with sane show ?thesis by (simp add: sane_restart)
next
  case Call_Kill
  with sane show ?thesis by (simp add: sane_kill)
next
  case (Call_Fatal e l)
  with sane show ?thesis by (simp add: sane_handle_fatal_error)
next
  case (Call_Unhandled f e)
  with exec_unhandled_cases [of f e st] sane show ?thesis
    by (auto simp: sane_handle_fatal_error)
next
  case (Call_Register d)
  show ?thesis
  proof (cases "d < next_child st")
    case True
    have "fresh_ok st" "\<forall>c < next_child st. handle_ok st c" "registry_ok st"
      using sane by (simp_all add: sane_def)
    then show ?thesis unfolding Call_Register exec_register(1) [OF True] using True
      by (auto simp: sane_def fresh_ok_def handle_ok_def registry_ok_def set_add_def)
  next
    case False
    with sane show ?thesis unfolding Call_Register by simp
  qed
next
  case (Call_Unregister d)
  have "fresh_ok st" "\<forall>c < next_child st. handle_ok st c" "registry_ok st"
    using sane by (simp_all add: sane_def)
  then show ?thesis unfolding Call_Unregister
    by (auto simp: sane_def fresh_ok_def handle_ok_def registry_ok_def set_delete_def
        distinct_removeAll)
qed

lemma run_reaction_child_free:
  "\<forall>pr. r \<noteq> Restart_Resume pr \<Longrightarrow>
   next_child (run_reaction r v st) = next_child st \<and>
   global_spawn (run_reaction r v st) = global_spawn st"
  by (cases r) (simp_all add: split_beta)

lemma sane_tick:
  assumes sane: "sane st"
  shows "sane (tick st)"
proof (cases "microtasks st")
  case Nil
  with sane show ?thesis by (simp add: tick_Nil)
next
  case (Cons t ts)
  have tl: "ttarget t < next_prom st"
  proof (rule ccontr)
    assume "\<not> ttarget t < next_prom st"
    then have "untargeted (ttarget t) st" using sane by (simp add: sane_def fresh_ok_def)
    with Cons show False by (simp add: untargeted_in_def)
  qed
  have tc: "closed (procs st c) \<noteq> ttarget t" if "c < next_child st" for c
  proof
    assume e: "closed (procs st c) = ttarget t"
    have "untargeted (closed (procs st c)) st" using sane that by (simp add: sane_def handle_ok_def)
    with Cons e show False by (simp add: untargeted_in_def)
  qed
  show ?thesis
  proof (cases "\<exists>pr v. t = Reaction_Job (Restart_Resume pr) v")
    case True
    then obtain pr v where t: "t = Reaction_Job (Restart_Resume pr) v" by blast
    have "sane (restart_spawn pr (st\<lparr>microtasks := ts\<rparr>))"
    proof (rule sane_restart_spawn [OF sane_pop [OF sane Cons]])
      show "pr < next_prom (st\<lparr>microtasks := ts\<rparr>)" using tl t by simp
      show "closed (procs (st\<lparr>microtasks := ts\<rparr>) c) \<noteq> pr"
        if "c < next_child (st\<lparr>microtasks := ts\<rparr>)" for c
        using tc [of c] that t by simp
    qed
    then show ?thesis by (simp add: tick_Cons [OF Cons] t)
  next
    case False
    have cf: "next_child (tick st) = next_child st \<and> global_spawn (tick st) = global_spawn st"
    proof (cases t)
      case (Reaction_Job r v)
      with False have "\<forall>pr. r \<noteq> Restart_Resume pr" by simp
      from run_reaction_child_free [OF this] Reaction_Job show ?thesis
        by (simp add: tick_Cons [OF Cons])
    next
      case (Thenable_Job p r)
      then show ?thesis by (simp add: tick_Cons [OF Cons])
    qed
    show ?thesis
    proof (rule sane_frame [OF sane, where X = "{ttarget t}"])
      show "calm (next_prom st) {ttarget t} st (tick st)"
        by (rule calm_tick [OF Cons]) simp_all
      show "closed (procs st c) \<notin> {ttarget t}" if "c < next_child st" for c
        using tc [OF that] by simp
      show "steady q st (tick st)"
        if "q < next_prom st \<or> next_prom (tick st) \<le> q" "untargeted q st" for q
        by (rule steady_tick [OF that(2) that(1)])
    qed (simp_all add: cf)
  qed
qed

lemma sane_step: "step st st' \<Longrightarrow> sane st \<Longrightarrow> sane st'"
proof (induction rule: step.induct)
  case (begin_turn st)
  from begin_turn(3) show ?case by (rule sane_cong [rotated -1]) simp_all
next
  case (end_turn st)
  from end_turn(2) show ?case by (rule sane_cong [rotated -1]) simp_all
qed (simp_all add: sane_exec_call sane_os_close sane_tick)

lemma sane_reachable: "reachable st \<Longrightarrow> sane st"
  unfolding reachable_def
  by (induction rule: rtranclp_induct) (auto intro: sane_init sane_step)

lemma reachable_init: "reachable init"
  by (simp add: reachable_def)

lemma reachable_step: "reachable st \<Longrightarrow> step st st' \<Longrightarrow> reachable st'"
  by (simp add: reachable_def)

subsection \<open>A promise nobody targets stays as it is\<close>

lemma orphan_step:
  assumes st: "step st st'" and sane: "sane st" and o: "orphan q st"
  shows "orphan q st' \<and> pstate (proms st' q) = pstate (proms st q)"
  using st sane o
proof (induction rule: step.induct)
  case (begin_turn st)
  then show ?case by (simp add: orphan_def)
next
  case (end_turn st)
  then show ?case by (simp add: orphan_def)
next
  case (client_call st c)
  have q: "q < next_prom st" "untargeted q st" "listened_only q {} st"
    using client_call by (simp_all add: orphan_def)
  have "steady q st (exec_call c st)" using q by (intro steady_exec_call) simp
  moreover have "calm (next_prom st) {} st (exec_call c st)" by (rule calm_exec_call) simp
  ultimately show ?case using q by (auto simp: orphan_def steady_def calm_def)
next
  case (close_event st c cd sg)
  have q: "q < next_prom st" "untargeted q st" "listened_only q {} st"
    using close_event by (simp_all add: orphan_def)
  have "q \<notin> ltarget ` set (listeners (procs st c))"
    using q(3) close_event by (auto simp: listened_only_in_def)
  then have "pstate (proms (os_close c cd sg st) q) = pstate (proms st q)"
    using close_event by (simp add: os_close_pstate)
  moreover have "steady q st (os_close c cd sg st)" by (rule steady_os_close)
  ultimately show ?case using q by (auto simp: orphan_def steady_def)
next
  case (micro st)
  have q: "q < next_prom st" "untargeted q st" "listened_only q {} st"
    using micro by (simp_all add: orphan_def)
  obtain t ts where ts: "microtasks st = t # ts" using micro by (cases "microtasks st") auto
  have tq: "ttarget t \<noteq> q" using q(2) ts by (simp add: untargeted_in_def)
  have "steady q st (tick st)" using q by (intro steady_tick) simp_all
  moreover have "calm (next_prom st) {ttarget t} st (tick st)"
    by (rule calm_tick [OF ts]) simp_all
  ultimately show ?case using q tq by (auto simp: orphan_def steady_def calm_def)
qed

lemma orphan_steps:
  assumes "step\<^sup>*\<^sup>* st st'" "sane st" "orphan q st"
  shows "sane st' \<and> orphan q st' \<and> pstate (proms st' q) = pstate (proms st q)"
  using assms
proof (induction rule: rtranclp_induct)
  case base
  then show ?case by simp
next
  case (step y z)
  then have "sane y" "orphan q y" "pstate (proms y q) = pstate (proms st q)" by simp_all
  with orphan_step [OF step.hyps(2)] sane_step [OF step.hyps(2)]
  show ?case by simp
qed

lemma orphan_despawn_exited:
  assumes sane: "sane st" and ex: "exited (procs st c)"
  shows "orphan (next_prom st) (snd (despawn c st))"
proof -
  have fr: "untargeted (next_prom st) st" "listened_only (next_prom st) {} st"
    using sane by (simp_all add: sane_def fresh_ok_def)
  have "untargeted (next_prom st) (snd (despawn c st))"
    using fr(1) by (simp add: untargeted_new)
  moreover have "listened_only (next_prom st) {} (snd (despawn c st))"
    using fr(2) ex by (auto simp: listened_only_in_def)
  ultimately show ?thesis by (simp add: orphan_def)
qed

text \<open>
  C10. When the close event of a child has already fired and a client then calls
  \<open>despawn\<close> on it, the promise \<open>despawn\<close> returns stays pending whatever happens
  afterwards: its only resolver is the close listener \<open>despawn\<close> has just attached, and a
  child that has closed gets no second close event.
\<close>

theorem despawn_after_close_never_resolves:
  assumes "reachable st" and "c < next_child st" and "exited (procs st c)"
    and "step\<^sup>*\<^sup>* (snd (despawn c st)) st'"
  shows "pstate (proms st' (fst (despawn c st))) = Pending"
proof -
  have sane: "sane st" using assms(1) by (rule sane_reachable)
  have "sane (snd (despawn c st))" using sane by (rule sane_despawn)
  from orphan_steps [OF assms(4) this orphan_despawn_exited [OF sane assms(3)]]
  show ?thesis by simp
qed


lemma unregister_removes: "c \<notin> set (global_spawn (unregister c st))"
  by (simp add: set_delete_def)

lemma os_close_unregisters:
  assumes sane: "sane st" and c: "c < next_child st" and live: "\<not> exited (procs st c)"
  shows "c \<notin> set (global_spawn (os_close c cd sg st))"
proof -
  have "handle_ok st c" using sane c by (simp add: sane_def)
  then have "Spawn_Close (closed (procs st c)) \<in> set (listeners (procs st c))"
    using live by (simp add: handle_ok_def)
  then have "\<exists>cl. Spawn_Close cl \<in> set (listeners (procs st c))" by blast
  then show ?thesis using live by (simp add: os_close_registry)
qed

lemma closed_settles_only_on_close:
  assumes sane: "sane st" and step: "step st st'" and c: "c < next_child st"
    and p: "pstate (proms st (closed (procs st c))) = Pending"
    and p': "pstate (proms st' (closed (procs st c))) \<noteq> Pending"
  shows "\<not> exited (procs st c) \<and> (\<exists>cd sg. st' = os_close c cd sg st)"
proof -
  let ?cl = "closed (procs st c)"
  have hk: "handle_ok st c" using sane c by (simp add: sane_def)
  then have lt: "?cl < next_prom st" and u: "untargeted ?cl st"
    and l: "listened_only ?cl {(c, Spawn_Close ?cl)} st"
    by (simp_all add: handle_ok_def)
  have live: "\<not> exited (procs st c)" using hk p by (auto simp: handle_ok_def)
  from step have "\<exists>cd sg. st' = os_close c cd sg st"
  proof cases
    case begin_turn
    with p p' show ?thesis by simp
  next
    case (client_call k)
    have "calm (next_prom st) {} st (exec_call k st)" by (rule calm_exec_call) simp
    then have "pstate (proms (exec_call k st) ?cl) = pstate (proms st ?cl)"
      using lt by (simp add: calm_def)
    with p p' client_call show ?thesis by simp
  next
    case end_turn
    with p p' show ?thesis by simp
  next
    case (close_event d cd sg)
    show ?thesis
    proof (cases "d = c")
      case True
      with close_event show ?thesis by blast
    next
      case False
      have "?cl \<notin> ltarget ` set (listeners (procs st d))"
        using l close_event False by (auto simp: listened_only_in_def)
      then have "pstate (proms (os_close d cd sg st) ?cl) = pstate (proms st ?cl)"
        using close_event by (simp add: os_close_pstate)
      with p p' close_event show ?thesis by simp
    qed
  next
    case micro
    then obtain t ts where ts: "microtasks st = t # ts" by (cases "microtasks st") auto
    have "ttarget t \<noteq> ?cl" using u ts by (auto simp: untargeted_in_def)
    moreover have "calm (next_prom st) {ttarget t} st (tick st)"
      by (rule calm_tick [OF ts]) simp_all
    ultimately have "pstate (proms (tick st) ?cl) = pstate (proms st ?cl)"
      using lt by (simp add: calm_def)
    with p p' micro show ?thesis by simp
  qed
  with live show ?thesis by simp
qed

text \<open>
  C4. The close listener that \<open>spawn_process\<close> installs first unregisters the child and
  then resolves \<open>closed\<close>, in a registry that no longer holds the child; an exit code of
  0 gives a success outcome. On every reachable state, the close event of a live child
  leaves it out of the registry and its \<open>closed\<close> promise fulfilled with the outcome.
  Whatever step of the event loop settles a pending \<open>closed\<close>, the child is out of the
  registry after it; and in no reachable state is \<open>closed\<close> settled while the child is
  still registered, unless the client has itself passed the child to
  \<open>register_global_spawn\<close>.
\<close>

theorem closed_resolves_after_unregister:
  "run_listener c cd sg (Spawn_Close cl) st =
     resolve_promise cl (V_Result (close_result c cd sg)) (unregister c st) \<and>
   c \<notin> set (global_spawn (unregister c st)) \<and>
   ok (close_result c (Some 0) sg) \<and>
   (reachable st \<and> c < next_child st \<and> \<not> exited (procs st c) \<longrightarrow>
      c \<notin> set (global_spawn (os_close c cd sg st)) \<and>
      pstate (proms (os_close c cd sg st) (closed (procs st c))) =
        Fulfilled (V_Result (close_result c cd sg))) \<and>
   (reachable st \<and> step st st' \<and> c < next_child st \<and>
    pstate (proms st (closed (procs st c))) = Pending \<and>
    pstate (proms st' (closed (procs st c))) \<noteq> Pending \<longrightarrow>
      c \<notin> set (global_spawn st')) \<and>
   (reachable st \<and> c < next_child st \<and> c \<notin> set (client_registered st) \<and>
    pstate (proms st (closed (procs st c))) \<noteq> Pending \<longrightarrow>
      c \<notin> set (global_spawn st))"
proof (intro conjI impI)
  show "run_listener c cd sg (Spawn_Close cl) st =
     resolve_promise cl (V_Result (close_result c cd sg)) (unregister c st)" by simp
  show "c \<notin> set (global_spawn (unregister c st))" by (rule unregister_removes)
  show "ok (close_result c (Some 0) sg)" by (simp add: close_result_def truthy_def)
next
  assume a: "reachable st \<and> c < next_child st \<and> \<not> exited (procs st c)"
  then have sane: "sane st" by (simp add: sane_reachable)
  show "c \<notin> set (global_spawn (os_close c cd sg st))"
    using sane a by (simp add: os_close_unregisters)
  have "handle_ok st c" using sane a by (simp add: sane_def)
  then have "Spawn_Close (closed (procs st c)) \<in> set (listeners (procs st c))"
    "pstate (proms st (closed (procs st c))) = Pending"
    using a by (simp_all add: handle_ok_def)
  then show "pstate (proms (os_close c cd sg st) (closed (procs st c))) =
        Fulfilled (V_Result (close_result c cd sg))"
    using a by (force simp: os_close_pstate)
next
  assume a: "reachable st \<and> step st st' \<and> c < next_child st \<and>
    pstate (proms st (closed (procs st c))) = Pending \<and>
    pstate (proms st' (closed (procs st c))) \<noteq> Pending"
  then have sane: "sane st" by (simp add: sane_reachable)
  from closed_settles_only_on_close [OF sane, of st' c] a
  obtain cd' sg' where "\<not> exited (procs st c)" "st' = os_close c cd' sg' st" by blast
  then show "c \<notin> set (global_spawn st')"
    using sane a by (simp add: os_close_unregisters)
next
  assume a: "reachable st \<and> c < next_child st \<and> c \<notin> set (client_registered st) \<and>
    pstate (proms st (closed (procs st c))) \<noteq> Pending"
  then have sane: "sane st" by (simp add: sane_reachable)
  then have "handle_ok st c" using a by (simp add: sane_def)
  then have "exited (procs st c)" using a by (auto simp: handle_ok_def split: if_splits)
  then show "c \<notin> set (global_spawn st)" using sane a by (simp add: sane_def registry_ok_def)
qed

lemma reachable_turn_open: "reachable turn_open"
  unfolding turn_open_def
  by (rule reachable_step [OF reachable_init], rule step.begin_turn) (simp_all add: init_def)

lemma one_spawned_fields:
  "microtasks one_spawned = []" "in_turn one_spawned = False" "next_child one_spawned = 1"
  "next_prom one_spawned = 1" "global_spawn one_spawned = [0]"
  "exited (procs one_spawned 0) = False" "closed (procs one_spawned 0) = 0"
  "listeners (procs one_spawned 0) = [Spawn_Close 0]"
  "pstate (proms one_spawned 0) = Pending" "reactions (proms one_spawned 0) = []"
  "client_registered one_spawned = []"
  by (simp_all add: one_spawned_def turn_open_def init_def set_add_def)

lemma reachable_one_spawned: "reachable one_spawned"
proof -
  have "reachable (exec_call (Call_Spawn_Process [''sleep'', ''1'']) turn_open)"
    by (rule reachable_step [OF reachable_turn_open], rule step.client_call)
  then show ?thesis unfolding one_spawned_def
    by (rule reachable_step, intro step.end_turn) (simp add: turn_open_def)
qed

lemma one_closed_fields:
  "microtasks one_closed = []" "in_turn one_closed = False" "next_child one_closed = 1"
  "next_prom one_closed = 1" "global_spawn one_closed = []" "client_registered one_closed = []"
  "exited (procs one_closed 0) = True"
  "pstate (proms one_closed 0) =
     Fulfilled (V_Result \<lparr>ok = True, child = 0, code = Some 0, signal = None\<rparr>)"
  by (simp_all add: one_closed_def os_close_def one_spawned_fields unregister_def
      set_delete_def resolve_promise_def close_result_def truthy_def)

lemma reachable_one_closed: "reachable one_closed"
  unfolding one_closed_def
  by (rule reachable_step [OF reachable_one_spawned], rule step.close_event)
    (simp_all add: one_spawned_fields)

lemma reachable_one_closed_turn: "reachable one_closed_turn"
  unfolding one_closed_turn_def
  by (rule reachable_step [OF reachable_one_closed], rule step.begin_turn)
    (simp_all add: one_closed_fields)





theorem closed_resolves_after_unregister_witness:
  "reachable one_spawned \<and> 0 < next_child one_spawned \<and> \<not> exited (procs one_spawned 0) \<and>
   step one_spawned one_closed \<and>
   pstate (proms one_spawned (closed (procs one_spawned 0))) = Pending \<and>
   pstate (proms one_closed (closed (procs one_spawned 0))) =
     Fulfilled (V_Result \<lparr>ok = True, child = 0, code = Some 0, signal = None\<rparr>) \<and>
   0 \<notin> set (global_spawn one_closed) \<and>
   reachable one_closed \<and> 0 < next_child one_closed \<and>
   0 \<notin> set (client_registered one_closed) \<and>
   pstate (proms one_closed (closed (procs one_closed 0))) \<noteq> Pending"
proof -
  have a: "reachable one_spawned \<and> 0 < next_child one_spawned \<and> \<not> exited (procs one_spawned 0)"
    by (simp add: reachable_one_spawned one_spawned_fields)
  have s: "step one_spawned one_closed"
    unfolding one_closed_def by (rule step.close_event) (simp_all add: one_spawned_fields)
  have c: "closed (procs one_closed 0) = 0"
    by (simp add: one_closed_def os_close_def one_spawned_fields)
  have p: "pstate (proms one_spawned (closed (procs one_spawned 0))) = Pending"
    by (simp add: one_spawned_fields)
  have b: "reachable one_closed \<and> 0 < next_child one_closed \<and>
    0 \<notin> set (client_registered one_closed) \<and>
    pstate (proms one_closed (closed (procs one_closed 0))) \<noteq> Pending"
    by (simp add: reachable_one_closed one_closed_fields c)
  note t1 = closed_resolves_after_unregister [where c = 0 and cd = "Some 0" and sg = None
      and cl = 0 and st = one_spawned and st' = one_closed]
  note t2 = closed_resolves_after_unregister [where c = 0 and cd = "Some 0" and sg = None
      and cl = 0 and st = one_closed and st' = one_closed]
  from t1 a have 1: "pstate (proms (os_close 0 (Some 0) None one_spawned)
      (closed (procs one_spawned 0))) = Fulfilled (V_Result (close_result 0 (Some 0) None))"
    by simp
  then have 1: "pstate (proms one_closed (closed (procs one_spawned 0))) =
     Fulfilled (V_Result \<lparr>ok = True, child = 0, code = Some 0, signal = None\<rparr>)"
    by (simp add: one_closed_def close_result_def truthy_def)
  from t1 a s p 1 have 2: "0 \<notin> set (global_spawn one_closed)" by simp
  from t2 b have 3: "0 \<notin> set (global_spawn one_closed)" by simp
  from a s p 1 2 b show ?thesis by simp
qed

theorem despawn_after_close_never_resolves_witness:
  "reachable one_closed_turn \<and> in_turn one_closed_turn \<and> 0 < next_child one_closed_turn \<and>
   exited (procs one_closed_turn 0) \<and>
   step\<^sup>*\<^sup>* (snd (despawn 0 one_closed_turn)) ((snd (despawn 0 one_closed_turn))\<lparr>in_turn := False\<rparr>) \<and>
   pstate (proms ((snd (despawn 0 one_closed_turn))\<lparr>in_turn := False\<rparr>)
      (fst (despawn 0 one_closed_turn))) = Pending"
proof -
  have a: "in_turn one_closed_turn" "0 < next_child one_closed_turn"
    "exited (procs one_closed_turn 0)"
    by (simp_all add: one_closed_turn_def one_closed_fields)
  have "step (snd (despawn 0 one_closed_turn)) ((snd (despawn 0 one_closed_turn))\<lparr>in_turn := False\<rparr>)"
    by (rule step.end_turn) (simp add: a)
  then have s: "step\<^sup>*\<^sup>* (snd (despawn 0 one_closed_turn))
      ((snd (despawn 0 one_closed_turn))\<lparr>in_turn := False\<rparr>)" by (rule r_into_rtranclp)
  from despawn_after_close_never_resolves [OF reachable_one_closed_turn a(2,3) s]
    reachable_one_closed_turn a s
  show ?thesis by simp
qed

lemmas run_defs = turn_open_def init_def spawn_restartable_process_def restart_def kill_def
  close_def restart_spawn_def spawn_process_def new_promise_def spawn_child_process_def
  register_global_spawn_def set_add_def once_close_def child_kill_def then_promise_def
  resolve_promise_def os_close_def unregister_def set_delete_def close_result_def truthy_def
  tick_def Let_def

lemma restart_then_kill_fields:
  "microtasks restart_then_kill = []" "in_turn restart_then_kill = False"
  "spawned restart_then_kill = None" "restarting restart_then_kill = Some 1"
  "next_prom restart_then_kill = 5" "next_child restart_then_kill = 1"
  "exited (procs restart_then_kill 0) = False"
  "listeners (procs restart_then_kill 0) = [Spawn_Close 1]"
  "pstate (proms restart_then_kill (Suc 0)) = Pending"
  "reactions (proms restart_then_kill (Suc 0)) = [Close_Resume 3, Kill_Resume1 4]"
  "pstate (proms restart_then_kill 3) = Pending"
  "reactions (proms restart_then_kill 3) = [Restart_Resume 2]"
  "pstate (proms restart_then_kill 2) = Pending" "reactions (proms restart_then_kill 2) = []"
  "pstate (proms restart_then_kill 4) = Pending" "reactions (proms restart_then_kill 4) = []"
  "global_spawn restart_then_kill = [0]" "rp_spawns restart_then_kill = [0]"
  "rp_args restart_then_kill = [''serve'']"
  by (simp_all add: restart_then_kill_def run_defs)

lemma reachable_restart_then_kill: "reachable restart_then_kill"
proof -
  let ?a = "exec_call (Call_Construct [''serve'']) turn_open"
  have "reachable ?a"
    by (rule reachable_step [OF reachable_turn_open], rule step.client_call)
  then have "reachable (exec_call Call_Restart ?a)"
    by (rule reachable_step, intro step.client_call)
  then have "reachable (exec_call Call_Kill (exec_call Call_Restart ?a))"
    by (rule reachable_step, intro step.client_call)
  then show ?thesis unfolding restart_then_kill_def
    by (rule reachable_step, intro step.end_turn) (simp add: run_defs)
qed

lemma restart_then_kill_closed_fields:
  "microtasks restart_then_kill_closed =
     [Reaction_Job (Close_Resume 3)
        (V_Result \<lparr>ok = True, child = 0, code = None, signal = Some ''SIGTERM''\<rparr>),
      Reaction_Job (Kill_Resume1 4)
        (V_Result \<lparr>ok = True, child = 0, code = None, signal = Some ''SIGTERM''\<rparr>)]"
  "in_turn restart_then_kill_closed = False"
  "spawned restart_then_kill_closed = None" "restarting restart_then_kill_closed = Some 1"
  "next_prom restart_then_kill_closed = 5" "next_child restart_then_kill_closed = 1"
  "exited (procs restart_then_kill_closed 0) = True"
  "pstate (proms restart_then_kill_closed 3) = Pending"
  "reactions (proms restart_then_kill_closed 3) = [Restart_Resume 2]"
  "pstate (proms restart_then_kill_closed 2) = Pending"
  "reactions (proms restart_then_kill_closed 2) = []"
  "pstate (proms restart_then_kill_closed 4) = Pending"
  "reactions (proms restart_then_kill_closed 4) = []"
  "global_spawn restart_then_kill_closed = []" "rp_spawns restart_then_kill_closed = [0]"
  "rp_args restart_then_kill_closed = [''serve'']"
  by (simp_all add: restart_then_kill_closed_def os_close_def restart_then_kill_fields
      unregister_def set_delete_def resolve_promise_def close_result_def truthy_def)

lemma restart_then_kill_tick1:
  "microtasks (tick restart_then_kill_closed) =
     [Reaction_Job (Kill_Resume1 4)
        (V_Result \<lparr>ok = True, child = 0, code = None, signal = Some ''SIGTERM''\<rparr>),
      Reaction_Job (Restart_Resume 2) V_Undefined]"
  "in_turn (tick restart_then_kill_closed) = False"
  "spawned (tick restart_then_kill_closed) = None"
  "restarting (tick restart_then_kill_closed) = None"
  "next_prom (tick restart_then_kill_closed) = 5" "next_child (tick restart_then_kill_closed) = 1"
  "exited (procs (tick restart_then_kill_closed) 0) = True"
  "pstate (proms (tick restart_then_kill_closed) 2) = Pending"
  "reactions (proms (tick restart_then_kill_closed) 2) = []"
  "pstate (proms (tick restart_then_kill_closed) 4) = Pending"
  "reactions (proms (tick restart_then_kill_closed) 4) = []"
  "global_spawn (tick restart_then_kill_closed) = []"
  "rp_spawns (tick restart_then_kill_closed) = [0]"
  "rp_args (tick restart_then_kill_closed) = [''serve'']"
  by (simp_all add: tick_def restart_then_kill_closed_fields resolve_promise_def)

lemma restart_then_kill_tick2:
  "microtasks (tick (tick restart_then_kill_closed)) =
     [Reaction_Job (Restart_Resume 2) V_Undefined, Reaction_Job (Kill_Resume2 4) V_Undefined]"
  "in_turn (tick (tick restart_then_kill_closed)) = False"
  "spawned (tick (tick restart_then_kill_closed)) = None"
  "restarting (tick (tick restart_then_kill_closed)) = None"
  "next_prom (tick (tick restart_then_kill_closed)) = 6"
  "next_child (tick (tick restart_then_kill_closed)) = 1"
  "exited (procs (tick (tick restart_then_kill_closed)) 0) = True"
  "pstate (proms (tick (tick restart_then_kill_closed)) 2) = Pending"
  "reactions (proms (tick (tick restart_then_kill_closed)) 2) = []"
  "pstate (proms (tick (tick restart_then_kill_closed)) 4) = Pending"
  "reactions (proms (tick (tick restart_then_kill_closed)) 4) = []"
  "global_spawn (tick (tick restart_then_kill_closed)) = []"
  "rp_spawns (tick (tick restart_then_kill_closed)) = [0]"
  "rp_args (tick (tick restart_then_kill_closed)) = [''serve'']"
  by (simp_all add: tick_def [of "tick restart_then_kill_closed"] restart_then_kill_tick1
      close_def new_promise_def then_promise_def resolve_promise_def)

lemma restart_then_kill_tick3:
  "microtasks (tick (tick (tick restart_then_kill_closed))) =
     [Reaction_Job (Kill_Resume2 4) V_Undefined]"
  "in_turn (tick (tick (tick restart_then_kill_closed))) = False"
  "spawned (tick (tick (tick restart_then_kill_closed))) = Some (1, 6)"
  "restarting (tick (tick (tick restart_then_kill_closed))) = None"
  "exited (procs (tick (tick (tick restart_then_kill_closed))) (Suc 0)) = False"
  "exited (procs (tick (tick (tick restart_then_kill_closed))) 0) = True"
  "pstate (proms (tick (tick (tick restart_then_kill_closed))) 4) = Pending"
  "reactions (proms (tick (tick (tick restart_then_kill_closed))) 4) = []"
  "global_spawn (tick (tick (tick restart_then_kill_closed))) = [1]"
  "rp_spawns (tick (tick (tick restart_then_kill_closed))) = [0, 1]"
  by (simp_all add: tick_def [of "tick (tick restart_then_kill_closed)"] restart_then_kill_tick2
      restart_spawn_eq set_add_def resolve_promise_def)

lemma restart_then_kill_end_fields:
  "microtasks restart_then_kill_end = []"
  "spawned restart_then_kill_end = Some (1, 6)"
  "restarting restart_then_kill_end = None"
  "exited (procs restart_then_kill_end (Suc 0)) = False"
  "exited (procs restart_then_kill_end 0) = True"
  "pstate (proms restart_then_kill_end 4) = Fulfilled V_Undefined"
  "global_spawn restart_then_kill_end = [1]"
  "rp_spawns restart_then_kill_end = [0, 1]"
  by (simp_all add: restart_then_kill_end_def restart_then_kill_closed_def [symmetric]
      tick_def [of "tick (tick (tick restart_then_kill_closed))"] restart_then_kill_tick3
      resolve_promise_def)

lemma reachable_restart_then_kill_end: "reachable restart_then_kill_end"
proof -
  have "reachable restart_then_kill_closed"
    unfolding restart_then_kill_closed_def
    by (rule reachable_step [OF reachable_restart_then_kill], rule step.close_event)
      (simp_all add: restart_then_kill_fields)
  then have "reachable (tick restart_then_kill_closed)"
    by (rule reachable_step, intro step.micro) (simp_all add: restart_then_kill_closed_fields)
  then have "reachable (tick (tick restart_then_kill_closed))"
    by (rule reachable_step, intro step.micro) (simp_all add: restart_then_kill_tick1)
  then have "reachable (tick (tick (tick restart_then_kill_closed)))"
    by (rule reachable_step, intro step.micro) (simp_all add: restart_then_kill_tick2)
  then have "reachable (tick (tick (tick (tick restart_then_kill_closed))))"
    by (rule reachable_step, intro step.micro) (simp_all add: restart_then_kill_tick3)
  then show ?thesis
    by (simp add: restart_then_kill_end_def restart_then_kill_closed_def)
qed

text \<open>
  C3. Once the promise that \<open>kill()\<close> returned is fulfilled, the restartable process has no
  live child. The code keeps this when \<open>kill()\<close> directly follows the construction, and
  breaks it when a \<open>restart()\<close> is in flight: construct, \<open>restart()\<close>, \<open>kill()\<close> in one turn,
  then the close event of the first child. \<open>kill()\<close> waits on the first child's \<open>closed\<close>
  promise, finds \<open>spawned\<close> empty and returns, and the pending \<open>restart()\<close> then spawns the
  second child: promise 4 (the one \<open>kill()\<close> returned) is fulfilled, the queue is empty,
  and child 1 is alive and registered.
\<close>

theorem kill_during_restart_leaves_live_child:
  "fst (kill (exec_call Call_Restart (exec_call (Call_Construct [''serve'']) turn_open))) = 4 \<and>
   reachable restart_then_kill_end \<and>
   microtasks restart_then_kill_end = [] \<and>
   pstate (proms restart_then_kill_end 4) = Fulfilled V_Undefined \<and>
   spawned restart_then_kill_end = Some (1, 6) \<and>
   \<not> exited (procs restart_then_kill_end 1) \<and>
   global_spawn restart_then_kill_end = [1] \<and>
   rp_spawns restart_then_kill_end = [0, 1] \<and>
   fst (kill (exec_call (Call_Construct [''serve'']) turn_open)) = 2 \<and>
   microtasks construct_then_kill_end = [] \<and>
   pstate (proms construct_then_kill_end 2) = Fulfilled V_Undefined \<and>
   spawned construct_then_kill_end = None \<and>
   exited (procs construct_then_kill_end 0) \<and>
   global_spawn construct_then_kill_end = [] \<and>
   rp_spawns construct_then_kill_end = [0]"
proof -
  have a: "fst (kill (exec_call Call_Restart (exec_call (Call_Construct [''serve'']) turn_open))) = 4"
    "fst (kill (exec_call (Call_Construct [''serve'']) turn_open)) = 2"
    by (simp_all add: run_defs)
  have b: "microtasks construct_then_kill_end = []"
    "pstate (proms construct_then_kill_end 2) = Fulfilled V_Undefined"
    "spawned construct_then_kill_end = None"
    "exited (procs construct_then_kill_end 0)"
    "global_spawn construct_then_kill_end = []"
    "rp_spawns construct_then_kill_end = [0]"
    by (simp_all add: construct_then_kill_end_def run_defs)
  from a b show ?thesis
    by (simp add: reachable_restart_then_kill_end restart_then_kill_end_fields)
qed

lemma despawn_killed:
  "killed (procs (snd (despawn c st)) d) =
     (if d = c \<and> \<not> exited (procs st c) then True else killed (procs st d))"
  by (simp add: despawn_def Let_def split_beta child_kill_def)

lemma despawn_each_procs:
  "exited (procs (snd (despawn_each cs st)) d) = exited (procs st d)"
  "killed (procs (snd (despawn_each cs st)) d) =
     (d \<in> set cs \<and> \<not> exited (procs st d) \<or> killed (procs st d))"
  by (induction cs arbitrary: st) (auto simp: split_beta Let_def despawn_killed)

lemma despawn_each_logged:
  "logged (snd (despawn_each cs st)) = logged st @ map despawning cs"
  by (induction cs arbitrary: st) (simp_all add: split_beta Let_def despawning_def)

lemma despawn_each_microtasks [simp]:
  "microtasks (snd (despawn_each cs st)) = microtasks st"
  by (induction cs arbitrary: st) (simp_all add: split_beta Let_def)

lemma then_each_other:
  "p \<notin> set ps \<Longrightarrow> proms (then_each pa i ps st) p = proms st p"
  by (induction ps arbitrary: i st) (auto simp: then_promise_def split: pstate.splits)

lemma then_each_procs_killed [simp]:
  "killed (procs (then_each pa i ps st) d) = killed (procs st d)"
  by simp

lemma then_each_pending_microtasks:
  "\<forall>p \<in> set ps. pstate (proms st p) = Pending \<Longrightarrow>
   microtasks (then_each pa i ps st) = microtasks st"
  by (induction ps arbitrary: i st) (simp_all add: then_promise_def)

lemma promise_all_result:
  assumes "\<forall>p \<in> set ps. p < next_prom st"
  shows "pstate (proms (snd (promise_all ps st)) (next_prom st)) =
           (if ps = [] then Fulfilled (V_List []) else Pending)"
    and "reactions (proms (snd (promise_all ps st)) (next_prom st)) = []"
    and "logged (snd (promise_all ps st)) = logged st"
    and "procs (snd (promise_all ps st)) = procs st"
proof -
  have n: "next_prom st \<notin> set ps" using assms by auto
  show "pstate (proms (snd (promise_all ps st)) (next_prom st)) =
           (if ps = [] then Fulfilled (V_List []) else Pending)"
    using n by (simp add: promise_all_def Let_def split_beta resolve_promise_pstate)
  show "reactions (proms (snd (promise_all ps st)) (next_prom st)) = []"
    using n by (simp add: promise_all_def Let_def split_beta then_each_other set_slots_def
        resolve_promise_def)
  show "logged (snd (promise_all ps st)) = logged st"
    by (simp add: promise_all_def Let_def split_beta)
  show "procs (snd (promise_all ps st)) = procs st"
    by (simp add: promise_all_def Let_def split_beta)
qed

lemma despawn_each_pending:
  "p \<in> set (fst (despawn_each cs st)) \<Longrightarrow> pstate (proms (snd (despawn_each cs st)) p) = Pending"
proof (induction cs arbitrary: st)
  case Nil
  then show ?case by simp
next
  case (Cons c cs)
  let ?st1 = "snd (despawn c st)"
  from Cons.prems consider "p = next_prom st" | "p \<in> set (fst (despawn_each cs ?st1))"
    by (auto simp: split_beta Let_def)
  then show ?case
  proof cases
    case 1
    have "calm (next_prom ?st1) {} ?st1 (snd (despawn_each cs ?st1))"
      by (rule calm_despawn_each) simp
    then have "pstate (proms (snd (despawn_each cs ?st1)) p) = pstate (proms ?st1 p)"
      using 1 by (simp add: calm_def)
    with 1 show ?thesis by (simp add: split_beta Let_def)
  next
    case 2
    from Cons.IH [OF 2] show ?thesis by (simp add: split_beta Let_def)
  qed
qed

lemma promise_all_microtasks:
  "\<forall>p \<in> set ps. pstate (proms st p) = Pending \<and> p \<noteq> next_prom st \<Longrightarrow>
   microtasks (snd (promise_all ps st)) = microtasks st"
  by (simp add: promise_all_def Let_def split_beta then_each_pending_microtasks
      resolve_promise_def set_slots_def)

lemma despawn_all_result:
  "pstate (proms (snd (despawn_all st)) (fst (despawn_all st))) =
     (if global_spawn st = [] then Fulfilled (V_List []) else Pending)"
  "reactions (proms (snd (despawn_all st)) (fst (despawn_all st))) = []"
  "logged (snd (despawn_all st)) = logged st @ map despawning (global_spawn st)"
  "killed (procs (snd (despawn_all st)) d) =
     (d \<in> set (global_spawn st) \<and> \<not> exited (procs st d) \<or> killed (procs st d))"
  "microtasks (snd (despawn_all st)) = microtasks st"
proof -
  let ?st1 = "snd (despawn_each (global_spawn st) st)"
  let ?ps = "fst (despawn_each (global_spawn st) st)"
  have lt: "\<forall>p \<in> set ?ps. p < next_prom ?st1" by (simp add: despawn_each_fst)
  have e: "?ps = [] \<longleftrightarrow> global_spawn st = []" by (auto simp: despawn_each_fst)
  have f: "fst (despawn_all st) = next_prom ?st1" by simp
  show "pstate (proms (snd (despawn_all st)) (fst (despawn_all st))) =
     (if global_spawn st = [] then Fulfilled (V_List []) else Pending)"
    unfolding f using promise_all_result(1) [OF lt] e
    by (simp add: despawn_all_def Let_def split_beta)
  show "reactions (proms (snd (despawn_all st)) (fst (despawn_all st))) = []"
    unfolding f using promise_all_result(2) [OF lt]
    by (simp add: despawn_all_def Let_def split_beta)
  show "logged (snd (despawn_all st)) = logged st @ map despawning (global_spawn st)"
    using promise_all_result(3) [OF lt]
    by (simp add: despawn_all_def Let_def split_beta despawn_each_logged)
  show "killed (procs (snd (despawn_all st)) d) =
     (d \<in> set (global_spawn st) \<and> \<not> exited (procs st d) \<or> killed (procs st d))"
    using promise_all_result(4) [OF lt]
    by (simp add: despawn_all_def Let_def split_beta despawn_each_procs)
  have "\<forall>p \<in> set ?ps. pstate (proms ?st1 p) = Pending \<and> p \<noteq> next_prom ?st1"
    using lt by (auto simp: despawn_each_pending)
  from promise_all_microtasks [OF this]
  show "microtasks (snd (despawn_all st)) = microtasks st"
    by (simp add: despawn_all_def Let_def split_beta)
qed

text \<open>
  C9. Both fatal-error handlers that \<open>attach_process_error_handlers\<close> installs end in
  \<open>handle_fatal_error\<close>. It appends the fault's error entry to the log before any of the
  \<open>despawning\<close> entries that \<open>despawn_all\<close> writes, one per registered child; every registered
  child that has not closed is killed; the promise it returns is pending at return, with
  its continuation waiting on the promise of \<open>despawn_all\<close> (queued behind it when the
  registry was empty and that promise is fulfilled already). A rejected \<open>Error\<close> is passed
  on as it is; a rejected value that converts to a string is wrapped in an \<open>Error\<close> with
  that string as its message, \<open>undefined\<close> in one with the empty message. For a rejected
  \<open>Symbol\<close>, or an object without \<open>toString\<close>, the listener throws a \<open>TypeError\<close> instead:
  \<open>handle_fatal_error\<close> is not entered, so nothing is logged and no child is despawned
  by it.
\<close>

theorem fatal_error_logs_then_drains:
  "on_uncaughtException (attach_process_error_handlers f) = handle_fatal_error \<and>
   on_unhandledRejection (attach_process_error_handlers f) = handle_unhandled_rejection f \<and>
   handle_unhandled_rejection f (Js_Error m) st =
     Inr (handle_fatal_error (Js_Error m) (error_label f (Js_Error m)) st) \<and>
   handle_unhandled_rejection f (Js_Other s) st =
     Inr (handle_fatal_error (Js_Error s) (error_label f (Js_Other s)) st) \<and>
   handle_unhandled_rejection f Js_Undefined st =
     Inr (handle_fatal_error (Js_Error []) (error_label f Js_Undefined) st) \<and>
   handle_unhandled_rejection f (Js_Symbol d) st =
     Inl (Type_Error ''Cannot convert a Symbol value to a string'') \<and>
   handle_unhandled_rejection f Js_Bare_Object st =
     Inl (Type_Error ''Cannot convert object to primitive value'') \<and>
   exec_call (Call_Unhandled f (Js_Symbol d)) st = st \<and>
   exec_call (Call_Unhandled f Js_Bare_Object) st = st \<and>
   logged (snd (handle_fatal_error err lab st)) =
     logged st @ \<lparr>lvl = Error, label = lab, args = [Error_Info err]\<rparr> #
       map despawning (global_spawn st) \<and>
   (\<forall>c \<in> set (global_spawn st). \<not> exited (procs st c) \<longrightarrow>
      killed (procs (snd (handle_fatal_error err lab st)) c)) \<and>
   fst (handle_fatal_error err lab st) = next_prom st \<and>
   pstate (proms (snd (handle_fatal_error err lab st)) (next_prom st)) = Pending \<and>
   (if global_spawn st = []
    then microtasks (snd (handle_fatal_error err lab st)) =
           microtasks st @ [Reaction_Job (Fatal_Resume (next_prom st)) (V_List [])]
    else microtasks (snd (handle_fatal_error err lab st)) = microtasks st \<and>
         pstate (proms (snd (handle_fatal_error err lab st))
                  (Suc (next_prom st) + length (global_spawn st))) = Pending \<and>
         reactions (proms (snd (handle_fatal_error err lab st))
                  (Suc (next_prom st) + length (global_spawn st))) =
           [Fatal_Resume (next_prom st)])"
proof -
  let ?st2 = "log_call Error lab [Error_Info err] (snd (new_promise st))"
  let ?st3 = "snd (despawn_all ?st2)"
  let ?pa = "Suc (next_prom st) + length (global_spawn st)"
  have eq: "snd (handle_fatal_error err lab st) = then_promise ?pa (Fatal_Resume (next_prom st)) ?st3"
    by (simp add: handle_fatal_error_def Let_def split_beta)
  have pa: "fst (despawn_all ?st2) = ?pa" by simp
  note r = despawn_all_result [of ?st2, unfolded pa]
  have "calm (next_prom ?st2) {} ?st2 ?st3" by (rule calm_despawn_all) simp
  then have pf: "pstate (proms ?st3 (next_prom st)) = Pending" by (simp add: calm_def)
  have 1: "on_uncaughtException (attach_process_error_handlers f) = handle_fatal_error"
    "on_unhandledRejection (attach_process_error_handlers f) = handle_unhandled_rejection f"
    by (simp_all add: attach_process_error_handlers_def)
  have 2: "handle_unhandled_rejection f (Js_Error m) st =
     Inr (handle_fatal_error (Js_Error m) (error_label f (Js_Error m)) st)"
    "handle_unhandled_rejection f (Js_Other s) st =
     Inr (handle_fatal_error (Js_Error s) (error_label f (Js_Other s)) st)"
    "handle_unhandled_rejection f Js_Undefined st =
     Inr (handle_fatal_error (Js_Error []) (error_label f Js_Undefined) st)"
    "handle_unhandled_rejection f (Js_Symbol d) st =
     Inl (Type_Error ''Cannot convert a Symbol value to a string'')"
    "handle_unhandled_rejection f Js_Bare_Object st =
     Inl (Type_Error ''Cannot convert object to primitive value'')"
    by (simp_all add: handle_unhandled_rejection_def Let_def)
  have 3: "exec_call (Call_Unhandled f (Js_Symbol d)) st = st"
    "exec_call (Call_Unhandled f Js_Bare_Object) st = st"
    by (simp_all add: 2)
  have 4: "logged (snd (handle_fatal_error err lab st)) =
     logged st @ \<lparr>lvl = Error, label = lab, args = [Error_Info err]\<rparr> #
       map despawning (global_spawn st)"
    unfolding eq using r(3) by simp
  have 5: "\<forall>c \<in> set (global_spawn st). \<not> exited (procs st c) \<longrightarrow>
      killed (procs (snd (handle_fatal_error err lab st)) c)"
    unfolding eq using r(4) by simp
  have 6: "pstate (proms (snd (handle_fatal_error err lab st)) (next_prom st)) = Pending"
    unfolding eq using pf by simp
  have 7: "if global_spawn st = []
    then microtasks (snd (handle_fatal_error err lab st)) =
           microtasks st @ [Reaction_Job (Fatal_Resume (next_prom st)) (V_List [])]
    else microtasks (snd (handle_fatal_error err lab st)) = microtasks st \<and>
         pstate (proms (snd (handle_fatal_error err lab st)) ?pa) = Pending \<and>
         reactions (proms (snd (handle_fatal_error err lab st)) ?pa) =
           [Fatal_Resume (next_prom st)]"
    unfolding eq using r(1,2,5) by (cases "global_spawn st = []") (simp_all add: then_promise_def)
  have 8: "fst (handle_fatal_error err lab st) = next_prom st"
    by (simp add: handle_fatal_error_def Let_def split_beta)
  from 1 2 3 4 5 6 7 8 show ?thesis by (simp only: simp_thms)
qed

theorem fatal_error_logs_then_drains_witness:
  "global_spawn two_spawned = [0, 1] \<and>
   \<not> exited (procs two_spawned 0) \<and> \<not> exited (procs two_spawned 1) \<and>
   logged (snd (handle_fatal_error (Js_Error ''boom'') ''uncaughtException'' two_spawned)) =
     [\<lparr>lvl = Error, label = ''uncaughtException'', args = [Error_Info (Js_Error ''boom'')]\<rparr>,
      despawning 0, despawning 1] \<and>
   killed (procs (snd (handle_fatal_error (Js_Error ''boom'') ''uncaughtException'' two_spawned)) 0) \<and>
   killed (procs (snd (handle_fatal_error (Js_Error ''boom'') ''uncaughtException'' two_spawned)) 1) \<and>
   handle_unhandled_rejection None (Js_Other ''gone'') two_spawned =
     Inr (handle_fatal_error (Js_Error ''gone'') ''unhandledRejection'' two_spawned) \<and>
   handle_unhandled_rejection None (Js_Symbol ''gone'') two_spawned =
     Inl (Type_Error ''Cannot convert a Symbol value to a string'') \<and>
   logged (exec_call (Call_Unhandled None (Js_Symbol ''gone'')) two_spawned) = [] \<and>
   \<not> killed (procs (exec_call (Call_Unhandled None (Js_Symbol ''gone'')) two_spawned) 0)"
proof -
  have g: "global_spawn two_spawned = [0, 1]" "logged two_spawned = []"
    "\<not> exited (procs two_spawned 0)" "\<not> exited (procs two_spawned 1)"
    "\<not> killed (procs two_spawned 0)"
    by (simp_all add: two_spawned_def run_defs)
  note t = fatal_error_logs_then_drains [where f = None and s = "''gone''" and d = "''gone''"
      and st = two_spawned and err = "Js_Error ''boom''" and lab = "''uncaughtException''"]
  from t have l: "logged (snd (handle_fatal_error (Js_Error ''boom'') ''uncaughtException''
      two_spawned)) = logged two_spawned @
        \<lparr>lvl = Error, label = ''uncaughtException'', args = [Error_Info (Js_Error ''boom'')]\<rparr> #
        map despawning (global_spawn two_spawned)" by blast
  from t have k: "\<forall>c \<in> set (global_spawn two_spawned). \<not> exited (procs two_spawned c) \<longrightarrow>
      killed (procs (snd (handle_fatal_error (Js_Error ''boom'') ''uncaughtException''
        two_spawned)) c)" by blast
  from t have w: "handle_unhandled_rejection None (Js_Other ''gone'') two_spawned =
     Inr (handle_fatal_error (Js_Error ''gone'') (error_label None (Js_Other ''gone''))
       two_spawned)"
    by blast
  from t have x: "handle_unhandled_rejection None (Js_Symbol ''gone'') two_spawned =
     Inl (Type_Error ''Cannot convert a Symbol value to a string'')"
    "exec_call (Call_Unhandled None (Js_Symbol ''gone'')) two_spawned = two_spawned"
    by blast+
  from k g have k': "killed (procs (snd (handle_fatal_error (Js_Error ''boom'')
      ''uncaughtException'' two_spawned)) 0)"
    "killed (procs (snd (handle_fatal_error (Js_Error ''boom'')
      ''uncaughtException'' two_spawned)) 1)" by simp_all
  from g l k' w x show ?thesis by (simp add: error_label_def)
qed

subsection \<open>Entries of one kind\<close>

lemma ttarget_treaction: "ttarget t = rtarget (treaction t)"
  by (cases t) simp_all

lemma kept_refl: "kept K st st"
  by (simp add: kept_def)

lemma kept_trans:
  assumes a: "kept K st st1" and b: "kept K st1 st2"
  shows "kept K st st2"
proof -
  have q: "kq K st2 = kq K st" using a b by (simp add: kept_def)
  have r: "\<forall>p. kr K st2 p = kr K st p \<or> kr K st2 p = []"
  proof
    fix p
    have "kr K st1 p = kr K st p \<or> kr K st1 p = []" using a by (simp add: kept_def)
    moreover have "kr K st2 p = kr K st1 p \<or> kr K st2 p = []" using b by (simp add: kept_def)
    ultimately show "kr K st2 p = kr K st p \<or> kr K st2 p = []" by auto
  qed
  from q r show ?thesis by (simp add: kept_def)
qed

lemma kept_same:
  "microtasks st' = microtasks st \<Longrightarrow> (\<And>p. reactions (proms st' p) = reactions (proms st p)) \<Longrightarrow>
   kept K st st'"
  by (simp add: kept_def kq_def kr_def)

lemma then_promise_reactions:
  "reactions (proms (then_promise p r st) q) =
     (if q = p \<and> pstate (proms st p) = Pending then reactions (proms st p) @ [r]
      else reactions (proms st q))"
  by (simp add: then_promise_def split: pstate.splits)

lemma resolve_promise_reactions:
  "reactions (proms (resolve_promise p v st) q) =
     (if q = p \<and> pstate (proms st p) = Pending then [] else reactions (proms st q))"
  by (simp add: resolve_promise_def split: pstate.splits)

lemma then_promise_microtasks:
  "microtasks (then_promise p r st) =
     (case pstate (proms st p) of Pending \<Rightarrow> microtasks st
      | Fulfilled v \<Rightarrow> microtasks st @ [Reaction_Job r v])"
  by (simp add: then_promise_def split: pstate.splits)

lemma resolve_promise_microtasks:
  "microtasks (resolve_promise p v st) =
     (if pstate (proms st p) = Pending
      then microtasks st @ map (\<lambda>r. Reaction_Job r v) (reactions (proms st p))
      else microtasks st)"
  by (simp add: resolve_promise_def split: pstate.splits)

lemma kept_new_promise: "kept K st (snd (new_promise st))"
  by (simp add: kept_def kq_def kr_def)

lemma kept_resolve:
  "\<forall>r \<in> set (reactions (proms st p)). \<not> K r \<Longrightarrow> kept K st (resolve_promise p v st)"
  by (auto simp: kept_def kq_def kr_def resolve_promise_reactions resolve_promise_microtasks
      filter_empty_conv)

lemma kept_then: "\<not> K r \<Longrightarrow> kept K st (then_promise p r st)"
  by (auto simp: kept_def kq_def kr_def then_promise_reactions then_promise_microtasks
      split: pstate.splits)

lemma kept_enqueue:
  "\<not> K (treaction t) \<Longrightarrow> kept K st (st\<lparr>microtasks := microtasks st @ [t]\<rparr>)"
  by (simp add: kept_def kq_def kr_def)

lemma kept_log: "kept K st (log_call l lab as st)"
  by (simp add: kept_same)

lemma kept_register: "kept K st (register_global_spawn c st)"
  by (simp add: kept_same)

lemma kept_unregister: "kept K st (unregister c st)"
  by (simp add: kept_same)

lemma kept_kill: "kept K st (child_kill c st)"
  by (simp add: kept_same)

lemma kept_once: "kept K st (once_close c l st)"
  by (simp add: kept_same)

lemma kept_spawn_child: "kept K st (snd (spawn_child_process as cl st))"
  by (simp add: kept_same)

lemma kept_slots: "kept K st (set_slots pa sl st)"
  by (simp add: kept_same)

lemma kept_upd:
  "kept K st st1 \<Longrightarrow> kept K st (st1\<lparr>restarting := b\<rparr>)"
  "kept K st st1 \<Longrightarrow> kept K st (st1\<lparr>spawned := a\<rparr>)"
  "kept K st st1 \<Longrightarrow> kept K st (st1\<lparr>in_turn := d\<rparr>)"
  "kept K st st1 \<Longrightarrow> kept K st (st1\<lparr>client_registered := g\<rparr>)"
  "kept K st st1 \<Longrightarrow> kept K st (st1\<lparr>spawned := a, rp_spawns := e\<rparr>)"
  by (simp_all add: kept_def kq_def kr_def)

lemmas kept_steps =
  kept_trans [OF _ kept_new_promise] kept_trans [OF _ kept_resolve]
  kept_trans [OF _ kept_then] kept_trans [OF _ kept_log]
  kept_trans [OF _ kept_register] kept_trans [OF _ kept_unregister]
  kept_trans [OF _ kept_kill] kept_trans [OF _ kept_once]
  kept_trans [OF _ kept_spawn_child] kept_trans [OF _ kept_enqueue]
  kept_trans [OF _ kept_slots]

lemma kept_spawn_process: "kept K st (snd (spawn_process as st))"
  unfolding spawn_process_def Let_def split_beta snd_conv
  by (intro kept_steps kept_refl)

lemma kept_despawn: "kept K st (snd (despawn c st))"
  unfolding despawn_def Let_def split_beta snd_conv
  by (intro kept_steps kept_refl)

lemma kept_despawn_each: "kept K st (snd (despawn_each cs st))"
proof (induction cs arbitrary: st)
  case Nil
  show ?case by (simp add: kept_refl)
next
  case (Cons c cs)
  from kept_trans [OF kept_despawn Cons.IH] show ?case
    by (simp add: split_beta Let_def)
qed

lemma kept_then_each: "\<forall>j. \<not> K (All_Elem pa j) \<Longrightarrow> kept K st (then_each pa i ps st)"
proof (induction ps arbitrary: i st)
  case Nil
  show ?case by (simp add: kept_refl)
next
  case (Cons p ps)
  have "kept K st (then_promise p (All_Elem pa i) st)"
    using Cons.prems by (intro kept_then) simp
  with Cons.IH [OF Cons.prems] show ?case by (simp add: kept_trans)
qed

lemma kept_promise_all:
  "\<forall>j. \<not> K (All_Elem (next_prom st) j) \<Longrightarrow> kept K st (snd (promise_all ps st))"
  unfolding promise_all_def Let_def split_beta
  by (cases "ps = []"; simp only: if_True if_False snd_conv refl)
    (intro kept_steps kept_refl kept_trans [OF _ kept_then_each]; simp)+

lemma kept_despawn_all:
  "\<forall>j. \<not> K (All_Elem (next_prom st + length (global_spawn st)) j) \<Longrightarrow>
   kept K st (snd (despawn_all st))"
  unfolding despawn_all_def Let_def split_beta
  by (rule kept_trans [OF kept_despawn_each kept_promise_all]) simp

lemma kept_handle_fatal_error:
  "\<not> K (Fatal_Resume (next_prom st)) \<Longrightarrow>
   \<forall>j. \<not> K (All_Elem (Suc (next_prom st + length (global_spawn st))) j) \<Longrightarrow>
   kept K st (snd (handle_fatal_error e l st))"
  unfolding handle_fatal_error_def Let_def split_beta snd_conv
  apply (rule kept_trans [OF _ kept_then])
   apply (rule kept_trans [OF _ kept_despawn_all])
    apply (rule kept_trans [OF _ kept_log])
    apply (rule kept_new_promise)
   apply simp_all
  done

lemma kept_close: "\<not> K (Close_Resume (next_prom st)) \<Longrightarrow> kept K st (snd (close st))"
proof (cases "spawned st")
  case None
  show ?thesis unfolding close_None [OF None] snd_conv
    by (intro kept_steps kept_refl) simp
next
  case (Some a)
  obtain c cl where a: "a = (c, cl)" by (cases a)
  assume "\<not> K (Close_Resume (next_prom st))"
  then show ?thesis unfolding close_Some [OF Some [unfolded a]] snd_conv
    by (intro kept_steps kept_upd kept_refl)
qed

lemma kept_restart_spawn:
  "pr \<noteq> next_prom st \<Longrightarrow> \<forall>r \<in> set (reactions (proms st pr)). \<not> K r \<Longrightarrow>
   kept K st (restart_spawn pr st)"
  unfolding restart_spawn_eq
  by (intro kept_steps kept_upd kept_spawn_process) simp

lemma kept_restart:
  assumes "\<not> K (Adopt (next_prom st))"
    "restarting st = None \<longrightarrow> \<not> K (Close_Resume (Suc (next_prom st)))"
    "\<not> K (Restart_Resume (next_prom st))"
  shows "kept K st (snd (restart st))"
proof (cases "restarting st")
  case (Some r)
  show ?thesis unfolding restart_restarting [OF Some] snd_conv
    using assms by (intro kept_steps kept_refl) simp
next
  case None
  show ?thesis
  proof (cases "spawned st")
    case (Some sp)
    have "kept K (snd (new_promise st)) (snd (close (snd (new_promise st))))"
      using assms None by (intro kept_close) simp
    then have "kept K st (snd (close (snd (new_promise st))))"
      by (rule kept_trans [OF kept_new_promise])
    then show ?thesis unfolding restart_running [OF None Some] snd_conv
      using assms by (intro kept_trans [OF _ kept_then])
  next
    case n: None
    have "kept K (snd (new_promise st)) (restart_spawn (next_prom st) (snd (new_promise st)))"
      by (intro kept_restart_spawn) simp_all
    then show ?thesis unfolding restart_idle [OF None n] snd_conv
      by (rule kept_trans [OF kept_new_promise])
  qed
qed

lemma kept_kill_call:
  assumes "\<not> K (Kill_Resume1 (next_prom st))"
    "restarting st = None \<longrightarrow> \<not> K (Close_Resume (Suc (next_prom st)))"
    "\<not> K (Kill_Resume2 (next_prom st))"
  shows "kept K st (snd (kill st))"
proof (cases "restarting st")
  case (Some r)
  show ?thesis unfolding kill_restarting [OF Some] snd_conv
    using assms by (intro kept_steps kept_refl)
next
  case None
  have "kept K (snd (new_promise st)) (snd (close (snd (new_promise st))))"
    using assms None by (intro kept_close) simp
  then have "kept K st (snd (close (snd (new_promise st))))"
    by (rule kept_trans [OF kept_new_promise])
  then show ?thesis unfolding kill_not_restarting [OF None] snd_conv
    using assms by (intro kept_trans [OF _ kept_then])
qed

lemma kept_same_upd:
  "microtasks st' = microtasks st \<Longrightarrow> proms st' = proms st \<Longrightarrow>
   kept K st' st'' \<Longrightarrow> kept K st st''"
  by (simp add: kept_def kq_def kr_def)

lemma kept_spawn_restartable_process:
  assumes "\<not> K (Adopt (next_prom st))" "\<not> K (Close_Resume (Suc (next_prom st)))"
    "\<not> K (Restart_Resume (next_prom st))"
  shows "kept K st (spawn_restartable_process as st)"
  unfolding spawn_restartable_process_def
  by (rule kept_same_upd [OF _ _ kept_restart]) (use assms in simp_all)

lemma kept_fill_slot:
  "\<forall>r \<in> set (reactions (proms st pa)). \<not> K r \<Longrightarrow> kept K st (fill_slot pa i v st)"
  unfolding fill_slot_def Let_def
  by (simp only: if_distrib [of "kept K st"])
    (auto intro!: kept_steps kept_refl)

lemma kept_run_reaction:
  assumes h1: "\<forall>r \<in> set (reactions (proms st (rtarget r0))). \<not> K r"
    and h2: "\<not> K (Close_Resume (next_prom st))"
    and h3: "\<not> K (Kill_Resume2 (rtarget r0))"
    and h4: "rtarget r0 < next_prom st"
  shows "kept K st (run_reaction r0 v st)"
proof (cases r0)
  case (Close_Resume pc)
  with h1 show ?thesis by (auto intro!: kept_steps kept_upd kept_refl)
next
  case (Restart_Resume pr)
  with h1 h4 show ?thesis by (auto intro!: kept_restart_spawn)
next
  case (Kill_Resume1 pk)
  have "kept K st (snd (close st))" using h2 by (intro kept_close)
  then have "kept K st (then_promise (next_prom st) (Kill_Resume2 pk) (snd (close st)))"
    using h3 Kill_Resume1 by (intro kept_trans [OF _ kept_then]) simp_all
  with Kill_Resume1 show ?thesis by (simp add: split_beta)
next
  case (Kill_Resume2 pk)
  with h1 show ?thesis by (simp add: kept_resolve)
next
  case (Adopt p)
  with h1 show ?thesis by (simp add: kept_resolve)
next
  case (All_Elem pa i)
  with h1 show ?thesis by (simp add: kept_fill_slot)
next
  case (Fatal_Resume pf)
  with h1 show ?thesis by (simp add: kept_resolve)
qed

lemma kept_run_task:
  assumes "\<forall>r \<in> set (reactions (proms st (ttarget t))). \<not> K r"
    and "\<not> K (Close_Resume (next_prom st))"
    and "\<not> K (Kill_Resume2 (ttarget t))" and "\<not> K (Adopt (ttarget t))"
    and "ttarget t < next_prom st"
  shows "kept K st (run_task t st)"
proof (cases t)
  case (Reaction_Job r v)
  with assms show ?thesis by (simp add: kept_run_reaction)
next
  case (Thenable_Job p r)
  with assms show ?thesis by (simp add: kept_then)
qed

subsection \<open>Entries that target one promise\<close>

lemma kept_exec_call:
  assumes q: "q < next_prom st \<or> next_prom (exec_call c st) \<le> q"
  shows "kept (\<lambda>r. rtarget r = q) st (exec_call c st)"
proof (cases c)
  case (Call_Spawn_Process as)
  then show ?thesis by (simp add: kept_spawn_process)
next
  case (Call_Construct as)
  with q show ?thesis by (auto intro!: kept_spawn_restartable_process kept_refl)
next
  case (Call_Despawn d)
  then show ?thesis by (simp add: kept_despawn kept_refl)
next
  case Call_Despawn_All
  with q show ?thesis by (auto intro!: kept_despawn_all)
next
  case Call_Restart
  with q show ?thesis by (auto intro!: kept_restart kept_refl split: if_splits)
next
  case Call_Kill
  with q show ?thesis by (auto intro!: kept_kill_call kept_refl split: if_splits)
next
  case (Call_Fatal e l)
  with q show ?thesis by (auto intro!: kept_handle_fatal_error)
next
  case (Call_Unhandled f e)
  with exec_unhandled_cases [of f e st] q show ?thesis
    by (auto intro!: kept_handle_fatal_error kept_refl)
next
  case (Call_Register d)
  show ?thesis
  proof (cases "d < next_child st")
    case True
    show ?thesis unfolding Call_Register exec_register(1) [OF True]
      by (intro kept_upd kept_register)
  next
    case False
    show ?thesis unfolding Call_Register exec_register(2) [OF False] by (rule kept_refl)
  qed
next
  case (Call_Unregister d)
  then show ?thesis by (auto intro!: kept_unregister kept_refl)
qed

lemma run_listener_reactions:
  "set (reactions (proms (run_listener c cd sg l st) p)) \<subseteq> set (reactions (proms st p))"
  by (cases l) (simp_all add: resolve_promise_reactions)

lemma run_listener_tasks:
  "t \<in> set (microtasks (run_listener c cd sg l st)) \<Longrightarrow>
   t \<in> set (microtasks st) \<or>
   (\<exists>r \<in> set (reactions (proms st (ltarget l))). t = Reaction_Job r (V_Result (close_result c cd sg)))"
  by (cases l) (auto simp: resolve_promise_microtasks split: if_splits)

lemma run_listeners_reactions:
  "set (reactions (proms (foldl (\<lambda>s l. run_listener c cd sg l s) st ls) p)) \<subseteq>
   set (reactions (proms st p))"
proof (induction ls arbitrary: st)
  case Nil
  show ?case by simp
next
  case (Cons l ls)
  from Cons.IH [of "run_listener c cd sg l st"] run_listener_reactions [of c cd sg l st p]
  show ?case by auto
qed

lemma run_listeners_tasks:
  "t \<in> set (microtasks (foldl (\<lambda>s l. run_listener c cd sg l s) st ls)) \<Longrightarrow>
   t \<in> set (microtasks st) \<or>
   (\<exists>l \<in> set ls. \<exists>r \<in> set (reactions (proms st (ltarget l))).
      t = Reaction_Job r (V_Result (close_result c cd sg)))"
proof (induction ls arbitrary: st)
  case Nil
  then show ?case by simp
next
  case (Cons l ls)
  from Cons.IH [of "run_listener c cd sg l st"] Cons.prems
  consider "t \<in> set (microtasks (run_listener c cd sg l st))"
    | l' r where "l' \<in> set ls" "r \<in> set (reactions (proms (run_listener c cd sg l st) (ltarget l')))"
        "t = Reaction_Job r (V_Result (close_result c cd sg))"
    by auto
  then show ?case
  proof cases
    case 1
    from run_listener_tasks [OF 1] show ?thesis by auto
  next
    case 2
    with run_listener_reactions [of c cd sg l st "ltarget l'"] show ?thesis by auto
  qed
qed

lemma os_close_tasks:
  assumes "\<not> exited (procs st c)" "t \<in> set (microtasks (os_close c cd sg st))"
  shows "t \<in> set (microtasks st) \<or>
   (\<exists>l \<in> set (listeners (procs st c)). \<exists>r \<in> set (reactions (proms st (ltarget l))).
      t = Reaction_Job r (V_Result (close_result c cd sg)))"
proof -
  let ?s0 = "st\<lparr>procs := (procs st)(c := (procs st c)\<lparr>exited := True, listeners := []\<rparr>)\<rparr>"
  have "t \<in> set (microtasks (foldl (\<lambda>s l. run_listener c cd sg l s) ?s0 (listeners (procs st c))))"
    using assms by (simp add: os_close_live)
  from run_listeners_tasks [OF this] show ?thesis by simp
qed

lemma os_close_reactions:
  "set (reactions (proms (os_close c cd sg st) p)) \<subseteq> set (reactions (proms st p))"
proof (cases "exited (procs st c)")
  case True
  then show ?thesis by (simp add: os_close_def)
next
  case False
  let ?s0 = "st\<lparr>procs := (procs st)(c := (procs st c)\<lparr>exited := True, listeners := []\<rparr>)\<rparr>"
  from run_listeners_reactions [of c cd sg ?s0 "listeners (procs st c)" p] False
  show ?thesis by (simp add: os_close_live)
qed

lemma run_listener_slots [simp]:
  "slots (proms (run_listener c cd sg l st) p) = slots (proms st p)"
  by (cases l) simp_all

lemma os_close_slots [simp]:
  "slots (proms (os_close c cd sg st) p) = slots (proms st p)"
proof -
  have "slots (proms (foldl (\<lambda>s l. run_listener c cd sg l s) s0 ls) p) = slots (proms s0 p)"
    for s0 ls by (induction ls arbitrary: s0) simp_all
  then show ?thesis by (simp add: os_close_def)
qed

subsection \<open>The aggregate promise of \<open>despawn_all\<close>\<close>

lemma outcome_of_close_result [simp]: "outcome_of c (V_Result (close_result c cd sg))"
  by (simp add: outcome_of_def close_result_def)

lemma kq_set: "t \<in> set (kq (\<lambda>r. rtarget r = q) st) \<longleftrightarrow> t \<in> set (microtasks st) \<and> ttarget t = q"
  by (auto simp: kq_def ttarget_treaction)

lemma kr_set:
  "r \<in> set (kr (\<lambda>r. rtarget r = q) st p) \<longleftrightarrow> r \<in> set (reactions (proms st p)) \<and> rtarget r = q"
  by (auto simp: kr_def)

lemma kept_tasks:
  "kept (\<lambda>r. rtarget r = q) st st' \<Longrightarrow> t \<in> set (microtasks st') \<Longrightarrow> ttarget t = q \<Longrightarrow>
   t \<in> set (microtasks st)"
  using kq_set [of t q st] kq_set [of t q st'] by (simp add: kept_def)

lemma kept_reactions:
  assumes "kept (\<lambda>r. rtarget r = q) st st'" "r \<in> set (reactions (proms st' p))" "rtarget r = q"
  shows "r \<in> set (reactions (proms st p))"
proof -
  have "r \<in> set (kr (\<lambda>r. rtarget r = q) st' p)" using assms by (simp add: kr_set)
  moreover have "kr (\<lambda>r. rtarget r = q) st' p = kr (\<lambda>r. rtarget r = q) st p \<or>
    kr (\<lambda>r. rtarget r = q) st' p = []" using assms(1) by (simp add: kept_def)
  ultimately have "r \<in> set (kr (\<lambda>r. rtarget r = q) st p)" by auto
  then show ?thesis by (simp add: kr_set)
qed

text \<open>The clauses of \<open>drain_ok\<close> follow from a handful of facts about one step.\<close>

lemma drain_ok_frame:
  assumes d: "drain_ok pa p0 cs st"
    and np: "next_prom st \<le> next_prom st'" and nc: "next_child st \<le> next_child st'"
    and ex: "\<And>c. c < next_child st \<Longrightarrow> exited (procs st c) \<Longrightarrow> exited (procs st' c)"
    and sl: "slots (proms st' pa) = slots (proms st pa)"
    and ps: "pstate (proms st' pa) = pstate (proms st pa)"
    and li: "listened_only pa {} st'"
    and el: "\<And>i. i < length cs \<Longrightarrow> untargeted (p0 + i) st' \<and>
               listened_only (p0 + i) {(cs ! i, Despawn_Close (p0 + i))} st'"
    and ts: "\<And>t. t \<in> set (microtasks st') \<Longrightarrow> ttarget t = pa \<Longrightarrow>
               (\<exists>i v. t = Reaction_Job (All_Elem pa i) v \<and> i < length cs \<and>
                      exited (procs st' (cs ! i)) \<and> outcome_of (cs ! i) v)"
    and rs: "\<And>p r. r \<in> set (reactions (proms st' p)) \<Longrightarrow> rtarget r = pa \<Longrightarrow>
               r \<in> set (reactions (proms st p))"
  shows "drain_ok pa p0 cs st'"
proof -
  have c: "\<And>i. i < length cs \<Longrightarrow> cs ! i < next_child st" using d by (simp add: drain_ok_def)
  have s: "\<And>i. i < length cs \<Longrightarrow> slots (proms st pa) ! i \<noteq> None \<Longrightarrow>
        exited (procs st (cs ! i)) \<and>
        (\<exists>v. slots (proms st pa) ! i = Some v \<and> outcome_of (cs ! i) v)"
    using d by (simp add: drain_ok_def)
  have s': "\<forall>i < length cs. slots (proms st' pa) ! i \<noteq> None \<longrightarrow>
        exited (procs st' (cs ! i)) \<and>
        (\<exists>v. slots (proms st' pa) ! i = Some v \<and> outcome_of (cs ! i) v)"
    using s ex c sl by auto
  have r': "\<forall>p. \<forall>r \<in> set (reactions (proms st' p)). rtarget r = pa \<longrightarrow>
        (\<exists>i < length cs. r = All_Elem pa i \<and> p = p0 + i)"
    using d rs unfolding drain_ok_def by blast
  have c': "\<forall>i < length cs. cs ! i < next_child st' \<and> untargeted (p0 + i) st' \<and>
        listened_only (p0 + i) {(cs ! i, Despawn_Close (p0 + i))} st'"
    using c el nc by fastforce
  have t': "\<forall>t \<in> set (microtasks st'). ttarget t = pa \<longrightarrow>
        (\<exists>i v. t = Reaction_Job (All_Elem pa i) v \<and> i < length cs \<and> exited (procs st' (cs ! i)) \<and>
               outcome_of (cs ! i) v)"
    using ts by blast
  have b: "pa < next_prom st'" "p0 + length cs \<le> pa"
    "length (slots (proms st' pa)) = length cs"
    using d np sl by (simp_all add: drain_ok_def)
  have f: "\<forall>v. pstate (proms st' pa) = Fulfilled v \<longrightarrow>
        list_all (\<lambda>x. x \<noteq> None) (slots (proms st' pa)) \<and>
        (\<exists>vs. v = V_List vs \<and> length vs = length cs \<and>
              (\<forall>i < length cs. outcome_of (cs ! i) (vs ! i)))"
    using d sl ps by (simp add: drain_ok_def)
  from b li t' r' c' s' f show ?thesis unfolding drain_ok_def by blast
qed

lemma drain_ok_reactions:
  "drain_ok pa p0 cs st \<Longrightarrow> r \<in> set (reactions (proms st p)) \<Longrightarrow> rtarget r = pa \<Longrightarrow>
   \<exists>i < length cs. r = All_Elem pa i \<and> p = p0 + i"
  unfolding drain_ok_def by blast

lemma drain_ok_tasks:
  "drain_ok pa p0 cs st \<Longrightarrow> t \<in> set (microtasks st) \<Longrightarrow> ttarget t = pa \<Longrightarrow>
   \<exists>i v. t = Reaction_Job (All_Elem pa i) v \<and> i < length cs \<and> exited (procs st (cs ! i)) \<and>
         outcome_of (cs ! i) v"
  unfolding drain_ok_def by blast

lemma task_lt: "sane st \<Longrightarrow> t \<in> set (microtasks st) \<Longrightarrow> ttarget t < next_prom st"
proof (rule ccontr)
  assume a: "sane st" "t \<in> set (microtasks st)" "\<not> ttarget t < next_prom st"
  then have "untargeted (ttarget t) st" by (simp add: sane_def fresh_ok_def)
  with a(2) show False by (auto simp: untargeted_in_def)
qed

lemma drain_ok_call:
  assumes d: "drain_ok pa p0 cs st"
  shows "drain_ok pa p0 cs (exec_call c st)"
proof (rule drain_ok_frame [OF d])
  let ?st = "exec_call c st"
  have pa: "pa < next_prom st" "p0 + length cs \<le> pa" using d by (simp_all add: drain_ok_def)
  have calm: "calm (next_prom st) {} st ?st" by (rule calm_exec_call) simp
  show "next_prom st \<le> next_prom ?st" "next_child st \<le> next_child ?st"
    using calm by (simp_all add: calm_def)
  show "exited (procs ?st k)" if "k < next_child st" "exited (procs st k)" for k
    using calm that by (simp add: calm_def)
  show "slots (proms ?st pa) = slots (proms st pa)" "pstate (proms ?st pa) = pstate (proms st pa)"
    using calm pa by (simp_all add: calm_def)
  have "steady pa st ?st" using pa by (intro steady_exec_call) simp
  then show "listened_only pa {} ?st" using d by (simp add: steady_def drain_ok_def)
  show "untargeted (p0 + i) ?st \<and> listened_only (p0 + i) {(cs ! i, Despawn_Close (p0 + i))} ?st"
    if "i < length cs" for i
  proof -
    have "steady (p0 + i) st ?st" using pa that by (intro steady_exec_call) simp
    then show ?thesis using d that by (simp add: steady_def drain_ok_def)
  qed
  have k: "kept (\<lambda>r. rtarget r = pa) st ?st" using pa by (intro kept_exec_call) simp
  show "\<exists>i v. t = Reaction_Job (All_Elem pa i) v \<and> i < length cs \<and> exited (procs ?st (cs ! i)) \<and>
      outcome_of (cs ! i) v"
    if t: "t \<in> set (microtasks ?st)" "ttarget t = pa" for t
  proof -
    have "t \<in> set (microtasks st)" using kept_tasks [OF k t] .
    from drain_ok_tasks [OF d this t(2)]
    obtain i v where i: "t = Reaction_Job (All_Elem pa i) v" "i < length cs"
      "exited (procs st (cs ! i))" "outcome_of (cs ! i) v" by blast
    moreover have "cs ! i < next_child st" using d i(2) by (simp add: drain_ok_def)
    ultimately show ?thesis using calm by (auto simp: calm_def)
  qed
  show "r \<in> set (reactions (proms st p))"
    if "r \<in> set (reactions (proms ?st p))" "rtarget r = pa" for p r
    using kept_reactions [OF k that] .
qed

lemma drain_ok_close:
  assumes d: "drain_ok pa p0 cs st" and live: "\<not> exited (procs st c)"
  shows "drain_ok pa p0 cs (os_close c cd sg st)"
proof (rule drain_ok_frame [OF d])
  let ?st = "os_close c cd sg st"
  show "next_prom st \<le> next_prom ?st" "next_child st \<le> next_child ?st" by simp_all
  show ex: "exited (procs ?st k)" if "exited (procs st k)" for k
    using that live by (simp add: os_close_procs)
  show "slots (proms ?st pa) = slots (proms st pa)" by simp
  have "listened_only pa {} st" using d by (simp add: drain_ok_def)
  then have "pa \<notin> ltarget ` set (listeners (procs st c))"
    using live by (auto simp: listened_only_in_def)
  then show "pstate (proms ?st pa) = pstate (proms st pa)"
    using live by (simp add: os_close_pstate)
  show "listened_only pa {} ?st"
    using steady_os_close [of pa st c cd sg] d by (simp add: steady_def drain_ok_def)
  show "untargeted (p0 + i) ?st \<and> listened_only (p0 + i) {(cs ! i, Despawn_Close (p0 + i))} ?st"
    if "i < length cs" for i
    using steady_os_close [of "p0 + i" st c cd sg] d that by (simp add: steady_def drain_ok_def)
  show "\<exists>i v. t = Reaction_Job (All_Elem pa i) v \<and> i < length cs \<and> exited (procs ?st (cs ! i)) \<and>
      outcome_of (cs ! i) v"
    if t: "t \<in> set (microtasks ?st)" "ttarget t = pa" for t
  proof -
    from os_close_tasks [OF live t(1)]
    consider "t \<in> set (microtasks st)"
      | l r where "l \<in> set (listeners (procs st c))" "r \<in> set (reactions (proms st (ltarget l)))"
          "t = Reaction_Job r (V_Result (close_result c cd sg))" by blast
    then show ?thesis
    proof cases
      case 1
      from drain_ok_tasks [OF d 1 t(2)]
      obtain i v where "t = Reaction_Job (All_Elem pa i) v" "i < length cs"
        "exited (procs st (cs ! i))" "outcome_of (cs ! i) v" by blast
      then show ?thesis using ex by blast
    next
      case 2
      then have "rtarget r = pa" using t(2) by simp
      from drain_ok_reactions [OF d 2(2) this]
      obtain i where i: "i < length cs" "r = All_Elem pa i" "ltarget l = p0 + i" by blast
      have "listened_only (p0 + i) {(cs ! i, Despawn_Close (p0 + i))} st"
        using d i(1) by (simp add: drain_ok_def)
      then have c: "c = cs ! i" using live 2(1) i(3) by (auto simp: listened_only_in_def)
      then have "exited (procs ?st (cs ! i))" using live by (simp add: os_close_procs)
      moreover have "outcome_of (cs ! i) (V_Result (close_result c cd sg))"
        unfolding c by simp
      ultimately show ?thesis using 2(3) i by blast
    qed
  qed
  show "r \<in> set (reactions (proms st p))"
    if "r \<in> set (reactions (proms ?st p))" "rtarget r = pa" for p r
    using os_close_reactions [of c cd sg st p] that by auto
qed

lemma drain_ok_tick_other:
  assumes sane: "sane st" and d: "drain_ok pa p0 cs st"
    and q: "microtasks st = t0 # ts" and t0: "ttarget t0 \<noteq> pa"
  shows "drain_ok pa p0 cs (tick st)"
proof (rule drain_ok_frame [OF d])
  let ?st = "tick st"
  let ?pop = "st\<lparr>microtasks := ts\<rparr>"
  have pa: "pa < next_prom st" "p0 + length cs \<le> pa" using d by (simp_all add: drain_ok_def)
  have tl: "ttarget t0 < next_prom st" using task_lt [OF sane] q by simp
  have calm: "calm (next_prom st) {ttarget t0} st ?st" by (rule calm_tick [OF q]) simp_all
  show "next_prom st \<le> next_prom ?st" "next_child st \<le> next_child ?st"
    using calm by (simp_all add: calm_def)
  show "exited (procs ?st k)" if "k < next_child st" "exited (procs st k)" for k
    using calm that by (simp add: calm_def)
  show "slots (proms ?st pa) = slots (proms st pa)" "pstate (proms ?st pa) = pstate (proms st pa)"
    using calm pa t0 by (simp_all add: calm_def)
  have "steady pa ?pop (run_task t0 ?pop)" using t0 pa by (intro steady_run_task) simp_all
  then show "listened_only pa {} ?st"
    using d by (simp add: steady_def drain_ok_def tick_Cons [OF q])
  show "untargeted (p0 + i) ?st \<and> listened_only (p0 + i) {(cs ! i, Despawn_Close (p0 + i))} ?st"
    if "i < length cs" for i
  proof -
    have u: "untargeted (p0 + i) st" using d that by (simp add: drain_ok_def)
    have "steady (p0 + i) st ?st" using pa that by (intro steady_tick [OF u]) simp
    then show ?thesis using d that by (simp add: steady_def drain_ok_def)
  qed
  have h: "\<forall>r \<in> set (reactions (proms ?pop (ttarget t0))). rtarget r \<noteq> pa"
  proof
    fix r assume r: "r \<in> set (reactions (proms ?pop (ttarget t0)))"
    show "rtarget r \<noteq> pa"
    proof
      assume "rtarget r = pa"
      from drain_ok_reactions [OF d _ this, of "ttarget t0"] r
      obtain i where i: "i < length cs" "ttarget t0 = p0 + i" by auto
      then have "untargeted (p0 + i) st" using d by (simp add: drain_ok_def)
      with q i(2) show False by (simp add: untargeted_in_def)
    qed
  qed
  have k: "kept (\<lambda>r. rtarget r = pa) ?pop ?st"
    unfolding tick_Cons [OF q] using h pa t0 tl by (intro kept_run_task) simp_all
  show "\<exists>i v. t = Reaction_Job (All_Elem pa i) v \<and> i < length cs \<and> exited (procs ?st (cs ! i)) \<and>
      outcome_of (cs ! i) v"
    if t: "t \<in> set (microtasks ?st)" "ttarget t = pa" for t
  proof -
    have "t \<in> set (microtasks ?pop)" using kept_tasks [OF k t] .
    then have "t \<in> set (microtasks st)" using q by simp
    from drain_ok_tasks [OF d this t(2)]
    obtain i v where i: "t = Reaction_Job (All_Elem pa i) v" "i < length cs"
      "exited (procs st (cs ! i))" "outcome_of (cs ! i) v" by blast
    moreover have "cs ! i < next_child st" using d i(2) by (simp add: drain_ok_def)
    ultimately show ?thesis using calm by (auto simp: calm_def)
  qed
  show "r \<in> set (reactions (proms st p))"
    if "r \<in> set (reactions (proms ?st p))" "rtarget r = pa" for p r
    using kept_reactions [OF k that] by simp
qed

lemma fill_slot_slots:
  "slots (proms (fill_slot pa i v st) q) =
     (if q = pa then (slots (proms st pa))[i := Some v] else slots (proms st q))"
  by (simp add: fill_slot_def Let_def)

lemma fill_slot_pstate:
  "pstate (proms (fill_slot pa i v st) q) =
     (if q = pa \<and> list_all (\<lambda>x. x \<noteq> None) ((slots (proms st pa))[i := Some v]) \<and>
         pstate (proms st pa) = Pending
      then Fulfilled (V_List (map the ((slots (proms st pa))[i := Some v])))
      else pstate (proms st q))"
  by (simp add: fill_slot_def Let_def resolve_promise_pstate)

lemma fill_slot_tasks:
  "t \<in> set (microtasks (fill_slot pa i v st)) \<Longrightarrow>
   t \<in> set (microtasks st) \<or> (\<exists>r \<in> set (reactions (proms st pa)). \<exists>w. t = Reaction_Job r w)"
  by (auto simp: fill_slot_def Let_def resolve_promise_microtasks split: if_splits)

lemma fill_slot_reactions:
  "set (reactions (proms (fill_slot pa i v st) q)) \<subseteq> set (reactions (proms st q))"
  by (simp add: fill_slot_def Let_def resolve_promise_reactions)

lemma drain_ok_tick_elem:
  assumes d: "drain_ok pa p0 cs st"
    and q: "microtasks st = Reaction_Job (All_Elem pa i) v # ts"
  shows "drain_ok pa p0 cs (tick st)"
proof -
  let ?pop = "st\<lparr>microtasks := ts\<rparr>"
  let ?st = "fill_slot pa i v ?pop"
  let ?sl = "(slots (proms st pa))[i := Some v]"
  have st: "tick st = ?st" by (simp add: tick_Cons [OF q])
  have pa: "pa < next_prom st" "p0 + length cs \<le> pa" "length (slots (proms st pa)) = length cs"
    using d by (simp_all add: drain_ok_def)
  from drain_ok_tasks [OF d, of "Reaction_Job (All_Elem pa i) v"] q
  have i: "i < length cs" "exited (procs st (cs ! i))" "outcome_of (cs ! i) v" by auto
  have nr: "rtarget r \<noteq> pa" if "r \<in> set (reactions (proms st pa))" for r
  proof
    assume "rtarget r = pa"
    from drain_ok_reactions [OF d that this] pa(2) show False by auto
  qed
  have 1: "pa < next_prom ?st" "length (slots (proms ?st pa)) = length cs"
    using pa by (simp_all add: fill_slot_slots)
  have 2: "listened_only pa {} ?st" using d by (simp add: drain_ok_def)
  have 3: "\<forall>t \<in> set (microtasks ?st). ttarget t = pa \<longrightarrow>
        (\<exists>j w. t = Reaction_Job (All_Elem pa j) w \<and> j < length cs \<and> exited (procs ?st (cs ! j)) \<and>
               outcome_of (cs ! j) w)"
  proof (intro ballI impI)
    fix t assume t: "t \<in> set (microtasks ?st)" "ttarget t = pa"
    from fill_slot_tasks [OF t(1)]
    consider "t \<in> set ts" | r w where "r \<in> set (reactions (proms st pa))" "t = Reaction_Job r w"
      by auto
    then have "t \<in> set (microtasks st)"
    proof cases
      case 1
      with q show ?thesis by simp
    next
      case 2
      with nr [OF 2(1)] t(2) show ?thesis by simp
    qed
    from drain_ok_tasks [OF d this t(2)]
    show "\<exists>j w. t = Reaction_Job (All_Elem pa j) w \<and> j < length cs \<and> exited (procs ?st (cs ! j)) \<and>
               outcome_of (cs ! j) w"
      by simp
  qed
  have 4: "\<forall>p. \<forall>r \<in> set (reactions (proms ?st p)). rtarget r = pa \<longrightarrow>
        (\<exists>j < length cs. r = All_Elem pa j \<and> p = p0 + j)"
  proof (intro allI ballI impI)
    fix p r assume r: "r \<in> set (reactions (proms ?st p))" "rtarget r = pa"
    then have "r \<in> set (reactions (proms st p))"
      using fill_slot_reactions [of pa i v ?pop p] by auto
    from drain_ok_reactions [OF d this r(2)]
    show "\<exists>j < length cs. r = All_Elem pa j \<and> p = p0 + j" .
  qed
  have 5: "\<forall>j < length cs. cs ! j < next_child ?st \<and> untargeted (p0 + j) ?st \<and>
        listened_only (p0 + j) {(cs ! j, Despawn_Close (p0 + j))} ?st"
  proof (intro allI impI)
    fix j assume j: "j < length cs"
    have "steady (p0 + j) st ?st"
      by (rule steady_trans [OF steady_pop [OF q] steady_fill_slot])
    then show "cs ! j < next_child ?st \<and> untargeted (p0 + j) ?st \<and>
        listened_only (p0 + j) {(cs ! j, Despawn_Close (p0 + j))} ?st"
      using d j by (simp add: steady_def drain_ok_def)
  qed
  have 6: "\<forall>j < length cs. slots (proms ?st pa) ! j \<noteq> None \<longrightarrow>
        exited (procs ?st (cs ! j)) \<and>
        (\<exists>w. slots (proms ?st pa) ! j = Some w \<and> outcome_of (cs ! j) w)"
  proof (intro allI impI)
    fix j assume j: "j < length cs" "slots (proms ?st pa) ! j \<noteq> None"
    show "exited (procs ?st (cs ! j)) \<and>
        (\<exists>w. slots (proms ?st pa) ! j = Some w \<and> outcome_of (cs ! j) w)"
    proof (cases "j = i")
      case True
      with i pa show ?thesis by (simp add: fill_slot_slots)
    next
      case False
      with j have "slots (proms st pa) ! j \<noteq> None" by (simp add: fill_slot_slots)
      with d j(1) False show ?thesis by (simp add: drain_ok_def fill_slot_slots)
    qed
  qed
  have o: "outcome_of (cs ! j) (map the ?sl ! j)"
    if "j < length cs" "list_all (\<lambda>x. x \<noteq> None) ?sl" for j
  proof -
    have "slots (proms ?st pa) ! j \<noteq> None"
      using that pa by (simp add: fill_slot_slots list_all_length)
    with 6 that(1) obtain w where "slots (proms ?st pa) ! j = Some w" "outcome_of (cs ! j) w"
      by blast
    then show ?thesis using that(1) pa by (simp add: fill_slot_slots)
  qed
  have 7: "\<forall>w. pstate (proms ?st pa) = Fulfilled w \<longrightarrow>
        list_all (\<lambda>x. x \<noteq> None) (slots (proms ?st pa)) \<and>
        (\<exists>vs. w = V_List vs \<and> length vs = length cs \<and>
              (\<forall>j < length cs. outcome_of (cs ! j) (vs ! j)))"
  proof (intro allI impI)
    fix w assume w: "pstate (proms ?st pa) = Fulfilled w"
    show "list_all (\<lambda>x. x \<noteq> None) (slots (proms ?st pa)) \<and>
        (\<exists>vs. w = V_List vs \<and> length vs = length cs \<and>
              (\<forall>j < length cs. outcome_of (cs ! j) (vs ! j)))"
    proof (cases "list_all (\<lambda>x. x \<noteq> None) ?sl \<and> pstate (proms st pa) = Pending")
      case True
      with w have "w = V_List (map the ?sl)" by (simp add: fill_slot_pstate)
      moreover have "length (map the ?sl) = length cs" using pa by simp
      moreover have "\<forall>j < length cs. outcome_of (cs ! j) (map the ?sl ! j)"
        using o True by blast
      ultimately have "\<exists>vs. w = V_List vs \<and> length vs = length cs \<and>
              (\<forall>j < length cs. outcome_of (cs ! j) (vs ! j))" by blast
      with True show ?thesis by (simp add: fill_slot_slots)
    next
      case False
      with w have f: "pstate (proms st pa) = Fulfilled w"
        by (auto simp: fill_slot_pstate split: if_splits)
      with d have o: "list_all (\<lambda>x. x \<noteq> None) (slots (proms st pa))"
        "\<exists>vs. w = V_List vs \<and> length vs = length cs \<and>
              (\<forall>j < length cs. outcome_of (cs ! j) (vs ! j))" by (simp_all add: drain_ok_def)
      have "list_all (\<lambda>x. x \<noteq> None) ?sl"
        using o(1) by (auto simp: list_all_iff dest: set_update_subset_insert [THEN subsetD])
      with o(2) show ?thesis by (simp add: fill_slot_slots)
    qed
  qed
  from 1 pa(2) 2 3 4 5 6 7 show ?thesis unfolding st drain_ok_def by blast
qed

lemma drain_ok_step:
  assumes "step st st'" "sane st" "drain_ok pa p0 cs st"
  shows "drain_ok pa p0 cs st'"
  using assms
proof (induction rule: step.induct)
  case (begin_turn st)
  then show ?case by (simp add: drain_ok_def)
next
  case (end_turn st)
  then show ?case by (simp add: drain_ok_def)
next
  case (client_call st c)
  then show ?case by (simp add: drain_ok_call)
next
  case (close_event st c cd sg)
  then show ?case by (simp add: drain_ok_close)
next
  case (micro st)
  obtain t ts where q: "microtasks st = t # ts" using micro by (cases "microtasks st") auto
  show ?case
  proof (cases "ttarget t = pa")
    case True
    from drain_ok_tasks [OF micro(4), of t] q True
    obtain i v where "t = Reaction_Job (All_Elem pa i) v" by auto
    with q micro(4) show ?thesis by (simp add: drain_ok_tick_elem)
  next
    case False
    with micro q show ?thesis by (simp add: drain_ok_tick_other)
  qed
qed

lemma drain_ok_steps:
  assumes "step\<^sup>*\<^sup>* st st'" "sane st" "drain_ok pa p0 cs st"
  shows "sane st' \<and> drain_ok pa p0 cs st'"
  using assms
proof (induction rule: rtranclp_induct)
  case base
  then show ?case by simp
next
  case (step y z)
  then have "sane y" "drain_ok pa p0 cs y" by simp_all
  with drain_ok_step [OF step.hyps(2)] sane_step [OF step.hyps(2)] show ?case by simp
qed

lemma drain_ok_result:
  assumes d: "drain_ok pa p0 cs st" and f: "pstate (proms st pa) = Fulfilled v"
  shows "(\<exists>vs. v = V_List vs \<and> length vs = length cs \<and>
            (\<forall>i < length cs. outcome_of (cs ! i) (vs ! i))) \<and>
         (\<forall>c \<in> set cs. exited (procs st c))"
proof -
  have a: "list_all (\<lambda>x. x \<noteq> None) (slots (proms st pa))"
    "\<exists>vs. v = V_List vs \<and> length vs = length cs \<and>
            (\<forall>i < length cs. outcome_of (cs ! i) (vs ! i))"
    using d f by (simp_all add: drain_ok_def)
  have l: "length (slots (proms st pa)) = length cs" using d by (simp add: drain_ok_def)
  have "exited (procs st c)" if "c \<in> set cs" for c
  proof -
    from that obtain i where i: "i < length cs" "c = cs ! i" by (auto simp: in_set_conv_nth)
    then have "slots (proms st pa) ! i \<noteq> None" using a(1) l by (simp add: list_all_length)
    with d i show ?thesis by (simp add: drain_ok_def)
  qed
  with a(2) show ?thesis by simp
qed

lemma then_each_reactions:
  "r \<in> set (reactions (proms (then_each pa i0 ps st) p)) \<Longrightarrow>
   r \<in> set (reactions (proms st p)) \<or> (\<exists>j < length ps. r = All_Elem pa (i0 + j) \<and> p = ps ! j)"
proof (induction ps arbitrary: i0 st)
  case Nil
  then show ?case by simp
next
  case (Cons p1 ps)
  from Cons.IH [of "Suc i0" "then_promise p1 (All_Elem pa i0) st"] Cons.prems
  consider "r \<in> set (reactions (proms (then_promise p1 (All_Elem pa i0) st) p))"
    | j where "j < length ps" "r = All_Elem pa (Suc i0 + j)" "p = ps ! j" by auto
  then show ?case
  proof cases
    case 1
    then have "r \<in> set (reactions (proms st p)) \<or> (r = All_Elem pa i0 \<and> p = p1)"
      by (auto simp: then_promise_reactions split: if_splits)
    then show ?thesis by auto
  next
    case 2
    then have "Suc j < length (p1 # ps) \<and> r = All_Elem pa (i0 + Suc j) \<and> p = (p1 # ps) ! Suc j"
      by simp
    then show ?thesis by blast
  qed
qed

lemma despawn_elem:
  assumes "untargeted (next_prom st) st" "listened_only (next_prom st) {} st"
  shows "untargeted (next_prom st) (snd (despawn c st)) \<and>
         listened_only (next_prom st) {(c, Despawn_Close (next_prom st))} (snd (despawn c st))"
  using assms by (auto simp: untargeted_new listened_only_in_def)

lemma despawn_each_elems:
  assumes "\<And>q. next_prom st \<le> q \<Longrightarrow> untargeted q st \<and> listened_only q {} st"
    and "i < length cs"
  shows "untargeted (next_prom st + i) (snd (despawn_each cs st)) \<and>
         listened_only (next_prom st + i) {(cs ! i, Despawn_Close (next_prom st + i))}
           (snd (despawn_each cs st))"
  using assms
proof (induction cs arbitrary: st i)
  case Nil
  then show ?case by simp
next
  case (Cons c cs)
  let ?st1 = "snd (despawn c st)"
  have e: "snd (despawn_each (c # cs) st) = snd (despawn_each cs ?st1)"
    by (simp add: split_beta Let_def)
  show ?case
  proof (cases i)
    case 0
    have "steady (next_prom st) ?st1 (snd (despawn_each cs ?st1))"
      by (rule steady_despawn_each) simp
    with despawn_elem [of st c] Cons.prems(1) [of "next_prom st"] 0 show ?thesis
      unfolding e by (simp add: steady_def)
  next
    case (Suc j)
    have "untargeted q ?st1 \<and> listened_only q {} ?st1" if "next_prom ?st1 \<le> q" for q
    proof -
      have "steady q st ?st1" using that by (intro steady_despawn) simp
      with Cons.prems(1) [of q] that show ?thesis by (simp add: steady_def)
    qed
    from Cons.IH [OF this, of j] Cons.prems(2) Suc show ?thesis
      unfolding e by simp
  qed
qed

lemma promise_all_slots:
  "slots (proms (snd (promise_all ps st)) (next_prom st)) = replicate (length ps) None"
  by (simp add: promise_all_def Let_def split_beta)

lemma promise_all_reactions:
  assumes "r \<in> set (reactions (proms (snd (promise_all ps st)) p))"
  shows "(p \<noteq> next_prom st \<and> r \<in> set (reactions (proms st p))) \<or>
         (\<exists>j < length ps. r = All_Elem (next_prom st) j \<and> p = ps ! j)"
proof (cases "ps = []")
  case True
  with assms show ?thesis
    by (auto simp: promise_all_def Let_def split_beta resolve_promise_reactions set_slots_def
        split: if_splits)
next
  case False
  let ?base = "set_slots (next_prom st) (replicate (length ps) None) (snd (new_promise st))"
  from False assms have "r \<in> set (reactions (proms (then_each (next_prom st) 0 ps ?base) p))"
    by (simp add: promise_all_def Let_def split_beta)
  from then_each_reactions [OF this] show ?thesis
    by (auto split: if_splits)
qed

lemma drain_ok_despawn_all:
  assumes sane: "sane st"
  shows "drain_ok (fst (despawn_all st)) (next_prom st) (global_spawn st) (snd (despawn_all st))"
proof -
  let ?cs = "global_spawn st" and ?n = "next_prom st"
  let ?st1 = "snd (despawn_each ?cs st)"
  let ?ps = "fst (despawn_each ?cs st)"
  let ?pa = "?n + length ?cs"
  let ?st2 = "snd (promise_all ?ps ?st1)"
  have st2: "snd (despawn_all st) = ?st2" by (simp add: despawn_all_def Let_def split_beta)
  have ps: "?ps = [?n ..< ?n + length ?cs]" by (rule despawn_each_fst)
  have n1: "next_prom ?st1 = ?pa" by simp
  have fr: "untargeted q st \<and> listened_only q {} st" if "?n \<le> q" for q
    using sane that by (simp add: sane_def fresh_ok_def)
  have lt: "\<forall>p \<in> set ?ps. p < next_prom ?st1" by (simp add: ps)
  have s1: "steady ?pa st ?st1" by (rule steady_despawn_each) simp
  have u1: "untargeted ?pa ?st1" "listened_only ?pa {} ?st1"
    using s1 fr [of ?pa] by (simp_all add: steady_def)
  have 1: "?pa < next_prom ?st2" "?n + length ?cs \<le> ?pa" by simp_all
  have 2: "length (slots (proms ?st2 ?pa)) = length ?cs"
    using promise_all_slots [of ?ps ?st1] by (simp add: ps)
  have 3: "listened_only ?pa {} ?st2"
    using u1(2) promise_all_result(4) [OF lt] by simp
  have 4: "\<forall>t \<in> set (microtasks ?st2). ttarget t = ?pa \<longrightarrow>
        (\<exists>i v. t = Reaction_Job (All_Elem ?pa i) v \<and> i < length ?cs \<and>
               exited (procs ?st2 (?cs ! i)) \<and> outcome_of (?cs ! i) v)"
  proof (intro ballI impI)
    fix t assume t: "t \<in> set (microtasks ?st2)" "ttarget t = ?pa"
    have "microtasks ?st2 = microtasks st"
      using despawn_all_result(5) [of st] by (simp add: st2)
    with t fr [of ?pa] have False by (auto simp: untargeted_in_def)
    then show "\<exists>i v. t = Reaction_Job (All_Elem ?pa i) v \<and> i < length ?cs \<and>
               exited (procs ?st2 (?cs ! i)) \<and> outcome_of (?cs ! i) v" ..
  qed
  have 5: "\<forall>p. \<forall>r \<in> set (reactions (proms ?st2 p)). rtarget r = ?pa \<longrightarrow>
        (\<exists>i < length ?cs. r = All_Elem ?pa i \<and> p = ?n + i)"
  proof (intro allI ballI impI)
    fix p r assume r: "r \<in> set (reactions (proms ?st2 p))" "rtarget r = ?pa"
    from promise_all_reactions [OF r(1)]
    consider "r \<in> set (reactions (proms ?st1 p))"
      | j where "j < length ?ps" "r = All_Elem (next_prom ?st1) j" "p = ?ps ! j" by auto
    then show "\<exists>i < length ?cs. r = All_Elem ?pa i \<and> p = ?n + i"
    proof cases
      case 1
      with u1(1) r(2) show ?thesis by (auto simp: untargeted_in_def)
    next
      case 2
      then show ?thesis by (auto simp: ps)
    qed
  qed
  have 6: "\<forall>i < length ?cs. ?cs ! i < next_child ?st2 \<and> untargeted (?n + i) ?st2 \<and>
        listened_only (?n + i) {(?cs ! i, Despawn_Close (?n + i))} ?st2"
  proof (intro allI impI)
    fix i assume i: "i < length ?cs"
    have "?cs ! i \<in> set ?cs" using i by simp
    then have c: "?cs ! i < next_child st" using sane by (auto simp: sane_def registry_ok_def)
    have "steady (?n + i) ?st1 ?st2" using i by (intro steady_promise_all) simp
    with despawn_each_elems [OF fr i] c
    show "?cs ! i < next_child ?st2 \<and> untargeted (?n + i) ?st2 \<and>
        listened_only (?n + i) {(?cs ! i, Despawn_Close (?n + i))} ?st2"
      by (simp add: steady_def)
  qed
  have 7: "\<forall>i < length ?cs. slots (proms ?st2 ?pa) ! i \<noteq> None \<longrightarrow>
        exited (procs ?st2 (?cs ! i)) \<and>
        (\<exists>v. slots (proms ?st2 ?pa) ! i = Some v \<and> outcome_of (?cs ! i) v)"
    using promise_all_slots [of ?ps ?st1] by (simp add: ps)
  have 8: "\<forall>v. pstate (proms ?st2 ?pa) = Fulfilled v \<longrightarrow>
        list_all (\<lambda>x. x \<noteq> None) (slots (proms ?st2 ?pa)) \<and>
        (\<exists>vs. v = V_List vs \<and> length vs = length ?cs \<and>
              (\<forall>i < length ?cs. outcome_of (?cs ! i) (vs ! i)))"
    using despawn_all_result(1) [of st] promise_all_slots [of ?ps ?st1]
    by (auto simp: st2 ps split: if_splits)
  from 1 2 3 4 5 6 7 8 show ?thesis
    unfolding st2 drain_ok_def by simp
qed

subsection \<open>The aggregate promise of \<open>despawn_all\<close> is fulfilled in the end\<close>

lemma drain_live_frame:
  assumes l: "drain_live pa p0 cs st"
    and A: "\<And>i. i < length cs \<Longrightarrow> waiting pa p0 cs i st \<Longrightarrow>
              waiting pa p0 cs i st' \<or> queued pa i st'"
    and B: "\<And>i. i < length cs \<Longrightarrow> queued pa i st \<Longrightarrow> queued pa i st'"
    and sl: "slots (proms st' pa) = slots (proms st pa)"
    and ps: "pstate (proms st' pa) = pstate (proms st pa)"
  shows "drain_live pa p0 cs st'"
proof -
  have "waiting pa p0 cs i st' \<or> queued pa i st' \<or> slots (proms st' pa) ! i \<noteq> None"
    if i: "i < length cs" for i
  proof -
    from l i consider "waiting pa p0 cs i st" | "queued pa i st"
      | "slots (proms st pa) ! i \<noteq> None" unfolding drain_live_def by blast
    then show ?thesis
    proof cases
      case 1
      with A [OF i] show ?thesis by blast
    next
      case 2
      with B [OF i] show ?thesis by blast
    next
      case 3
      with sl show ?thesis by simp
    qed
  qed
  moreover have "list_all (\<lambda>x. x \<noteq> None) (slots (proms st' pa)) \<longrightarrow>
      pstate (proms st' pa) \<noteq> Pending"
    using l sl ps by (simp add: drain_live_def)
  ultimately show ?thesis by (simp add: drain_live_def)
qed

lemma kept_queued:
  assumes "kept (\<lambda>r. rtarget r = pa) st st'" "queued pa i st"
  shows "queued pa i st'"
proof -
  from assms(2) obtain v where "Reaction_Job (All_Elem pa i) v \<in> set (microtasks st)"
    by (auto simp: queued_def)
  then have "Reaction_Job (All_Elem pa i) v \<in> set (kq (\<lambda>r. rtarget r = pa) st)"
    by (simp add: kq_set)
  then have "Reaction_Job (All_Elem pa i) v \<in> set (kq (\<lambda>r. rtarget r = pa) st')"
    using assms(1) by (simp add: kept_def)
  then show ?thesis by (auto simp: kq_set queued_def)
qed

lemma calm_waiting:
  assumes c: "calm n X st st'" and lt: "cs ! i < next_child st" "p0 + i < n" "p0 + i \<notin> X"
    and w: "waiting pa p0 cs i st"
  shows "waiting pa p0 cs i st'"
proof -
  have "exited (procs st' (cs ! i)) = exited (procs st (cs ! i))"
    "set (listeners (procs st (cs ! i))) \<subseteq> set (listeners (procs st' (cs ! i)))"
    using c lt(1) by (simp_all add: calm_def)
  moreover have "pstate (proms st' (p0 + i)) = pstate (proms st (p0 + i))"
    "set (reactions (proms st (p0 + i))) \<subseteq> set (reactions (proms st' (p0 + i)))"
    using c lt(2,3) by (simp_all add: calm_def)
  ultimately show ?thesis using w unfolding waiting_def by auto
qed

lemma drain_live_call:
  assumes d: "drain_ok pa p0 cs st" and l: "drain_live pa p0 cs st"
  shows "drain_live pa p0 cs (exec_call c st)"
proof (rule drain_live_frame [OF l])
  let ?st = "exec_call c st"
  have pa: "pa < next_prom st" "p0 + length cs \<le> pa" using d by (simp_all add: drain_ok_def)
  have calm: "calm (next_prom st) {} st ?st" by (rule calm_exec_call) simp
  have k: "kept (\<lambda>r. rtarget r = pa) st ?st" using pa by (intro kept_exec_call) simp
  show "waiting pa p0 cs i ?st \<or> queued pa i ?st"
    if "i < length cs" "waiting pa p0 cs i st" for i
  proof -
    have "cs ! i < next_child st" using d that(1) by (simp add: drain_ok_def)
    from calm_waiting [OF calm this _ _ that(2)] pa that(1) show ?thesis by simp
  qed
  show "queued pa i ?st" if "queued pa i st" for i using kept_queued [OF k that] .
  show "slots (proms ?st pa) = slots (proms st pa)" "pstate (proms ?st pa) = pstate (proms st pa)"
    using calm pa by (simp_all add: calm_def)
qed

lemma run_listener_mono:
  "t \<in> set (microtasks st) \<Longrightarrow> t \<in> set (microtasks (run_listener c cd sg l st))"
  by (cases l) (simp_all add: resolve_promise_microtasks)

lemma run_listeners_mono:
  "t \<in> set (microtasks st) \<Longrightarrow>
   t \<in> set (microtasks (foldl (\<lambda>s l. run_listener c cd sg l s) st ls))"
  by (induction ls arbitrary: st) (simp_all add: run_listener_mono)

lemma os_close_mono:
  "t \<in> set (microtasks st) \<Longrightarrow> t \<in> set (microtasks (os_close c cd sg st))"
  by (cases "exited (procs st c)") (simp_all add: os_close_def run_listeners_mono)

lemma run_listener_other:
  "ltarget l \<noteq> q \<Longrightarrow> proms (run_listener c cd sg l st) q = proms st q"
  by (cases l) (simp_all add: resolve_promise_def split: pstate.splits)

lemma run_listeners_other:
  "q \<notin> ltarget ` set ls \<Longrightarrow>
   proms (foldl (\<lambda>s l. run_listener c cd sg l s) st ls) q = proms st q"
  by (induction ls arbitrary: st) (simp_all add: run_listener_other)

lemma os_close_other:
  "\<not> exited (procs st c) \<Longrightarrow> q \<notin> ltarget ` set (listeners (procs st c)) \<Longrightarrow>
   proms (os_close c cd sg st) q = proms st q"
  by (simp add: os_close_live run_listeners_other)

lemma run_listener_fires:
  "pstate (proms st (ltarget l)) = Pending \<Longrightarrow> r \<in> set (reactions (proms st (ltarget l))) \<Longrightarrow>
   Reaction_Job r (V_Result (close_result c cd sg)) \<in>
     set (microtasks (run_listener c cd sg l st))"
  by (cases l) (simp_all add: resolve_promise_microtasks)

lemma run_listeners_fires:
  "l \<in> set ls \<Longrightarrow> pstate (proms st (ltarget l)) = Pending \<Longrightarrow>
   r \<in> set (reactions (proms st (ltarget l))) \<Longrightarrow>
   Reaction_Job r (V_Result (close_result c cd sg)) \<in>
     set (microtasks (foldl (\<lambda>s l. run_listener c cd sg l s) st ls))"
proof (induction ls arbitrary: st)
  case Nil
  then show ?case by simp
next
  case (Cons l' ls)
  show ?case
  proof (cases "ltarget l' = ltarget l")
    case True
    have "Reaction_Job r (V_Result (close_result c cd sg)) \<in>
        set (microtasks (run_listener c cd sg l' st))"
      using Cons.prems(2,3) True by (simp add: run_listener_fires)
    then show ?thesis by (simp add: run_listeners_mono)
  next
    case False
    then have "l \<in> set ls" using Cons.prems(1) by auto
    moreover have "proms (run_listener c cd sg l' st) (ltarget l) = proms st (ltarget l)"
      using False by (simp add: run_listener_other)
    ultimately show ?thesis using Cons.IH [of "run_listener c cd sg l' st"] Cons.prems(2,3)
      by simp
  qed
qed

lemma os_close_fires:
  "\<not> exited (procs st c) \<Longrightarrow> l \<in> set (listeners (procs st c)) \<Longrightarrow>
   pstate (proms st (ltarget l)) = Pending \<Longrightarrow> r \<in> set (reactions (proms st (ltarget l))) \<Longrightarrow>
   Reaction_Job r (V_Result (close_result c cd sg)) \<in> set (microtasks (os_close c cd sg st))"
  by (simp add: os_close_live run_listeners_fires)

lemma drain_live_close:
  assumes d: "drain_ok pa p0 cs st" and l: "drain_live pa p0 cs st"
    and live: "\<not> exited (procs st c)"
  shows "drain_live pa p0 cs (os_close c cd sg st)"
proof (rule drain_live_frame [OF l])
  let ?st = "os_close c cd sg st"
  show "queued pa i ?st" if "queued pa i st" for i
    using that by (auto simp: queued_def intro: os_close_mono)
  show "slots (proms ?st pa) = slots (proms st pa)" by simp
  have "listened_only pa {} st" using d by (simp add: drain_ok_def)
  then have "pa \<notin> ltarget ` set (listeners (procs st c))"
    using live by (auto simp: listened_only_in_def)
  then show "pstate (proms ?st pa) = pstate (proms st pa)"
    using live by (simp add: os_close_pstate)
  show "waiting pa p0 cs i ?st \<or> queued pa i ?st"
    if i: "i < length cs" and w: "waiting pa p0 cs i st" for i
  proof (cases "cs ! i = c")
    case True
    from w True have "Despawn_Close (p0 + i) \<in> set (listeners (procs st c))"
      "pstate (proms st (ltarget (Despawn_Close (p0 + i)))) = Pending"
      "All_Elem pa i \<in> set (reactions (proms st (ltarget (Despawn_Close (p0 + i)))))"
      by (simp_all add: waiting_def)
    from os_close_fires [OF live this] show ?thesis by (auto simp: queued_def)
  next
    case False
    have "listened_only (p0 + i) {(cs ! i, Despawn_Close (p0 + i))} st"
      using d i by (simp add: drain_ok_def)
    then have "p0 + i \<notin> ltarget ` set (listeners (procs st c))"
      using live False by (auto simp: listened_only_in_def)
    then have "proms ?st (p0 + i) = proms st (p0 + i)" using live by (simp add: os_close_other)
    moreover have "procs ?st (cs ! i) = procs st (cs ! i)"
      using live False by (simp add: os_close_procs)
    ultimately show ?thesis using w by (simp add: waiting_def)
  qed
qed

lemma drain_live_tick_other:
  assumes sane: "sane st" and d: "drain_ok pa p0 cs st" and l: "drain_live pa p0 cs st"
    and q: "microtasks st = t0 # ts" and t0: "ttarget t0 \<noteq> pa"
  shows "drain_live pa p0 cs (tick st)"
proof (rule drain_live_frame [OF l])
  let ?st = "tick st"
  let ?pop = "st\<lparr>microtasks := ts\<rparr>"
  have pa: "pa < next_prom st" "p0 + length cs \<le> pa" using d by (simp_all add: drain_ok_def)
  have tl: "ttarget t0 < next_prom st" using task_lt [OF sane] q by simp
  have calm: "calm (next_prom st) {ttarget t0} st ?st" by (rule calm_tick [OF q]) simp_all
  show "slots (proms ?st pa) = slots (proms st pa)" "pstate (proms ?st pa) = pstate (proms st pa)"
    using calm pa t0 by (simp_all add: calm_def)
  have h: "\<forall>r \<in> set (reactions (proms ?pop (ttarget t0))). rtarget r \<noteq> pa"
  proof
    fix r assume r: "r \<in> set (reactions (proms ?pop (ttarget t0)))"
    show "rtarget r \<noteq> pa"
    proof
      assume "rtarget r = pa"
      from drain_ok_reactions [OF d _ this, of "ttarget t0"] r
      obtain i where i: "i < length cs" "ttarget t0 = p0 + i" by auto
      then have "untargeted (p0 + i) st" using d by (simp add: drain_ok_def)
      with q i(2) show False by (simp add: untargeted_in_def)
    qed
  qed
  have k: "kept (\<lambda>r. rtarget r = pa) ?pop ?st"
    unfolding tick_Cons [OF q] using h pa t0 tl by (intro kept_run_task) simp_all
  show "queued pa i ?st" if "queued pa i st" for i
  proof -
    from that obtain v where v: "Reaction_Job (All_Elem pa i) v \<in> set (t0 # ts)"
      using q by (auto simp: queued_def)
    have "Reaction_Job (All_Elem pa i) v \<noteq> t0" using t0 by auto
    with v have "queued pa i ?pop" by (auto simp: queued_def)
    then show ?thesis by (rule kept_queued [OF k])
  qed
  show "waiting pa p0 cs i ?st \<or> queued pa i ?st"
    if i: "i < length cs" and w: "waiting pa p0 cs i st" for i
  proof -
    have c: "cs ! i < next_child st" and u: "untargeted (p0 + i) st"
      using d i by (simp_all add: drain_ok_def)
    have "ttarget t0 \<noteq> p0 + i" using u q by (auto simp: untargeted_in_def)
    with calm_waiting [OF calm c _ _ w] pa i show ?thesis by simp
  qed
qed

lemma fill_slot_mono:
  "t \<in> set (microtasks st) \<Longrightarrow> t \<in> set (microtasks (fill_slot pa i v st))"
  by (simp add: fill_slot_def Let_def resolve_promise_microtasks)

lemma fill_slot_other: "q \<noteq> pa \<Longrightarrow> proms (fill_slot pa i v st) q = proms st q"
  by (simp add: fill_slot_def Let_def set_slots_def resolve_promise_def split: pstate.splits)

lemma drain_live_tick_elem:
  assumes d: "drain_ok pa p0 cs st" and l: "drain_live pa p0 cs st"
    and q: "microtasks st = Reaction_Job (All_Elem pa i0) v # ts"
  shows "drain_live pa p0 cs (tick st)"
proof -
  let ?pop = "st\<lparr>microtasks := ts\<rparr>"
  let ?st = "fill_slot pa i0 v ?pop"
  let ?sl = "(slots (proms st pa))[i0 := Some v]"
  have st: "tick st = ?st" by (simp add: tick_Cons [OF q])
  have pa: "pa < next_prom st" "p0 + length cs \<le> pa" "length (slots (proms st pa)) = length cs"
    using d by (simp_all add: drain_ok_def)
  from drain_ok_tasks [OF d, of "Reaction_Job (All_Elem pa i0) v"] q
  have i0: "i0 < length cs" by auto
  have sl: "slots (proms ?st pa) = ?sl" by (simp add: fill_slot_slots)
  have 1: "waiting pa p0 cs i ?st \<or> queued pa i ?st \<or> slots (proms ?st pa) ! i \<noteq> None"
    if i: "i < length cs" for i
  proof (cases "i = i0")
    case True
    with i pa show ?thesis by (simp add: sl)
  next
    case False
    from l i consider "waiting pa p0 cs i st" | "queued pa i st"
      | "slots (proms st pa) ! i \<noteq> None" unfolding drain_live_def by blast
    then show ?thesis
    proof cases
      case 1
      have "p0 + i \<noteq> pa" using i pa by simp
      then have "proms ?st (p0 + i) = proms st (p0 + i)" by (simp add: fill_slot_other)
      with 1 show ?thesis by (simp add: waiting_def)
    next
      case 2
      then obtain w where "Reaction_Job (All_Elem pa i) w \<in> set (microtasks st)"
        by (auto simp: queued_def)
      with q False have "Reaction_Job (All_Elem pa i) w \<in> set (microtasks ?pop)" by simp
      then have "Reaction_Job (All_Elem pa i) w \<in> set (microtasks ?st)" by (rule fill_slot_mono)
      then show ?thesis by (auto simp: queued_def)
    next
      case 3
      with False show ?thesis by (simp add: sl)
    qed
  qed
  have 2: "list_all (\<lambda>x. x \<noteq> None) (slots (proms ?st pa)) \<longrightarrow> pstate (proms ?st pa) \<noteq> Pending"
    unfolding sl by (simp add: fill_slot_pstate)
  from 1 2 show ?thesis unfolding st by (simp add: drain_live_def)
qed

lemma drain_live_step:
  assumes "step st st'" "sane st" "drain_ok pa p0 cs st" "drain_live pa p0 cs st"
  shows "drain_live pa p0 cs st'"
  using assms
proof (induction rule: step.induct)
  case (begin_turn st)
  then show ?case by (simp add: drain_live_def waiting_def queued_def)
next
  case (end_turn st)
  then show ?case by (simp add: drain_live_def waiting_def queued_def)
next
  case (client_call st c)
  then show ?case by (simp add: drain_live_call)
next
  case (close_event st c cd sg)
  then show ?case by (simp add: drain_live_close)
next
  case (micro st)
  obtain t ts where q: "microtasks st = t # ts" using micro by (cases "microtasks st") auto
  show ?case
  proof (cases "ttarget t = pa")
    case True
    from drain_ok_tasks [OF micro(4), of t] q True
    obtain i v where "t = Reaction_Job (All_Elem pa i) v" by auto
    with q micro(4,5) show ?thesis by (simp add: drain_live_tick_elem)
  next
    case False
    with micro q show ?thesis by (simp add: drain_live_tick_other)
  qed
qed

lemma drain_live_steps:
  assumes "step\<^sup>*\<^sup>* st st'" "sane st" "drain_ok pa p0 cs st" "drain_live pa p0 cs st"
  shows "drain_live pa p0 cs st'"
  using assms
proof (induction rule: rtranclp_induct)
  case base
  then show ?case by simp
next
  case (step y z)
  from drain_ok_steps [OF step.hyps(1) step.prems(1,2)]
  have "sane y" "drain_ok pa p0 cs y" by simp_all
  with drain_live_step [OF step.hyps(2)] step.IH step.prems show ?case by simp
qed

lemma drain_live_result:
  assumes d: "drain_ok pa p0 cs st" and l: "drain_live pa p0 cs st"
    and ex: "\<forall>c \<in> set cs. exited (procs st c)" and e: "microtasks st = []"
  shows "\<exists>v. pstate (proms st pa) = Fulfilled v"
proof -
  have "slots (proms st pa) ! i \<noteq> None" if "i < length cs" for i
    using l ex e that by (auto simp: drain_live_def waiting_def queued_def)
  moreover have "length (slots (proms st pa)) = length cs" using d by (simp add: drain_ok_def)
  ultimately have "list_all (\<lambda>x. x \<noteq> None) (slots (proms st pa))"
    by (simp add: list_all_length)
  then have "pstate (proms st pa) \<noteq> Pending" using l by (simp add: drain_live_def)
  then show ?thesis by (cases "pstate (proms st pa)") simp_all
qed

lemma despawn_listener:
  "Despawn_Close (next_prom st) \<in> set (listeners (procs (snd (despawn c st)) c))"
  by (simp add: despawn_def Let_def split_beta once_close_def child_kill_def)

lemma despawn_each_listeners:
  assumes "i < length cs" "\<forall>c \<in> set cs. c < next_child st"
  shows "Despawn_Close (next_prom st + i) \<in>
           set (listeners (procs (snd (despawn_each cs st)) (cs ! i)))"
  using assms
proof (induction cs arbitrary: st i)
  case Nil
  then show ?case by simp
next
  case (Cons c cs)
  let ?st1 = "snd (despawn c st)"
  have e: "snd (despawn_each (c # cs) st) = snd (despawn_each cs ?st1)"
    by (simp add: split_beta Let_def)
  show ?case
  proof (cases i)
    case 0
    have "calm 0 {} ?st1 (snd (despawn_each cs ?st1))" by (rule calm_despawn_each) simp
    moreover have "c < next_child ?st1" using Cons.prems(2) by simp
    ultimately have "set (listeners (procs ?st1 c)) \<subseteq>
        set (listeners (procs (snd (despawn_each cs ?st1)) c))" unfolding calm_def by blast
    with despawn_listener [of st c] 0 show ?thesis unfolding e by auto
  next
    case (Suc j)
    have "\<forall>d \<in> set cs. d < next_child ?st1" using Cons.prems(2) by simp
    from Cons.IH [OF _ this, of j] Cons.prems(1) Suc show ?thesis unfolding e by simp
  qed
qed

lemma then_each_mono:
  "r \<in> set (reactions (proms st q)) \<Longrightarrow> r \<in> set (reactions (proms (then_each pa i ps st) q))"
  using calm_then_each [of "Suc q" "{}" st pa i ps] by (auto simp: calm_def)

lemma then_each_adds:
  "j < length ps \<Longrightarrow> pstate (proms st (ps ! j)) = Pending \<Longrightarrow>
   All_Elem pa (i0 + j) \<in> set (reactions (proms (then_each pa i0 ps st) (ps ! j)))"
proof (induction ps arbitrary: i0 st j)
  case Nil
  then show ?case by simp
next
  case (Cons p ps)
  show ?case
  proof (cases j)
    case 0
    with Cons.prems have "All_Elem pa i0 \<in> set (reactions (proms (then_promise p (All_Elem pa i0) st) p))"
      by (simp add: then_promise_reactions)
    from then_each_mono [OF this] 0 show ?thesis by simp
  next
    case (Suc k)
    with Cons.prems have "k < length ps"
      "pstate (proms (then_promise p (All_Elem pa i0) st) (ps ! k)) = Pending" by simp_all
    from Cons.IH [OF this, of "Suc i0"] Suc show ?thesis by simp
  qed
qed

lemma drain_live_despawn_all:
  assumes sane: "sane st" and live: "\<forall>c \<in> set (global_spawn st). \<not> exited (procs st c)"
  shows "drain_live (fst (despawn_all st)) (next_prom st) (global_spawn st) (snd (despawn_all st))"
proof -
  let ?cs = "global_spawn st" and ?n = "next_prom st"
  let ?st1 = "snd (despawn_each ?cs st)"
  let ?ps = "fst (despawn_each ?cs st)"
  let ?pa = "?n + length ?cs"
  let ?st2 = "snd (promise_all ?ps ?st1)"
  let ?base = "set_slots ?pa (replicate (length ?ps) None) (snd (new_promise ?st1))"
  have st2: "snd (despawn_all st) = ?st2" by (simp add: despawn_all_def Let_def split_beta)
  have ps: "?ps = [?n ..< ?n + length ?cs]" by (rule despawn_each_fst)
  have lt: "\<forall>p \<in> set ?ps. p < next_prom ?st1" by (simp add: ps)
  have reg: "\<forall>c \<in> set ?cs. c < next_child st" using sane by (simp add: sane_def registry_ok_def)
  have w: "waiting ?pa ?n ?cs i ?st2" if i: "i < length ?cs" for i
  proof -
    have ne: "?ps \<noteq> []" using i by (auto simp: ps)
    have e: "?st2 = then_each ?pa 0 ?ps ?base"
      using ne by (simp add: promise_all_def Let_def split_beta)
    have pr: "procs ?st2 = procs ?st1" using promise_all_result(4) [OF lt] .
    have "?cs ! i \<in> set ?cs" using i by simp
    then have 1: "\<not> exited (procs ?st2 (?cs ! i))"
      using live by (simp add: pr despawn_each_procs)
    have 2: "Despawn_Close (?n + i) \<in> set (listeners (procs ?st2 (?cs ! i)))"
      unfolding pr by (rule despawn_each_listeners [OF i reg])
    have "?n + i \<in> set ?ps" using i by (simp add: ps)
    then have p1: "pstate (proms ?st1 (?n + i)) = Pending" by (rule despawn_each_pending)
    have "calm ?pa {} ?st1 ?st2" by (rule calm_promise_all) simp
    then have 3: "pstate (proms ?st2 (?n + i)) = Pending"
      using i p1 by (simp add: calm_def)
    have j: "i < length ?ps" "?ps ! i = ?n + i" using i by (simp_all add: ps)
    have "pstate (proms ?base (?ps ! i)) = Pending"
      using p1 i unfolding j(2) by (simp add: set_slots_def)
    from then_each_adds [OF j(1) this, of ?pa 0]
    have 4: "All_Elem ?pa i \<in> set (reactions (proms ?st2 (?n + i)))"
      unfolding e j(2) by simp
    from 1 2 3 4 show ?thesis by (simp add: waiting_def)
  qed
  have f: "list_all (\<lambda>x. x \<noteq> None) (slots (proms ?st2 ?pa)) \<longrightarrow>
      pstate (proms ?st2 ?pa) \<noteq> Pending"
  proof (cases "?cs = []")
    case True
    with despawn_all_result(1) [of st] show ?thesis by (simp add: st2)
  next
    case False
    have "slots (proms ?st2 ?pa) = replicate (length ?cs) None"
      using promise_all_slots [of ?ps ?st1] by (simp add: ps)
    with False show ?thesis by (cases ?cs) simp_all
  qed
  from w f show ?thesis unfolding st2 by (simp add: drain_live_def)
qed

text \<open>
  C6. On an empty registry \<open>despawn_all\<close> returns a promise that is already fulfilled with
  the empty sequence, and queues nothing. From any reachable state with N registered
  handles, whatever happens after the call: if the promise is fulfilled, its value is a
  sequence of length N whose i-th element is an outcome of the i-th registered handle (a
  success or a failure, as its exit code says), and every one of the N handles has
  reported its close event, so the promise is never fulfilled while one of them is still
  open, and the length does not depend on the outcomes. And when the N handles are live
  at the call, the promise is fulfilled once all of them have closed and the microtask
  queue has run empty.
\<close>

theorem despawn_all_outcomes:
  "(global_spawn st = [] \<longrightarrow>
      pstate (proms (snd (despawn_all st)) (fst (despawn_all st))) = Fulfilled (V_List []) \<and>
      microtasks (snd (despawn_all st)) = microtasks st) \<and>
   (reachable st \<and> step\<^sup>*\<^sup>* (snd (despawn_all st)) st' \<and>
    pstate (proms st' (fst (despawn_all st))) = Fulfilled v \<longrightarrow>
      (\<exists>vs. v = V_List vs \<and> length vs = length (global_spawn st) \<and>
            (\<forall>i < length (global_spawn st). outcome_of (global_spawn st ! i) (vs ! i))) \<and>
      (\<forall>c \<in> set (global_spawn st). exited (procs st' c))) \<and>
   (reachable st \<and> (\<forall>c \<in> set (global_spawn st). \<not> exited (procs st c)) \<and>
    step\<^sup>*\<^sup>* (snd (despawn_all st)) st' \<and>
    (\<forall>c \<in> set (global_spawn st). exited (procs st' c)) \<and> microtasks st' = [] \<longrightarrow>
      (\<exists>w. pstate (proms st' (fst (despawn_all st))) = Fulfilled w))"
proof (intro conjI impI)
  assume "global_spawn st = []"
  then show "pstate (proms (snd (despawn_all st)) (fst (despawn_all st))) = Fulfilled (V_List [])"
    using despawn_all_result(1) [of st] by simp
  show "microtasks (snd (despawn_all st)) = microtasks st" by (rule despawn_all_result(5))
next
  assume a: "reachable st \<and> step\<^sup>*\<^sup>* (snd (despawn_all st)) st' \<and>
    pstate (proms st' (fst (despawn_all st))) = Fulfilled v"
  then have sane: "sane st" by (simp add: sane_reachable)
  have "sane (snd (despawn_all st))" using sane by (rule sane_despawn_all)
  from drain_ok_steps [OF _ this drain_ok_despawn_all [OF sane]] a
  have "drain_ok (fst (despawn_all st)) (next_prom st) (global_spawn st) st'" by blast
  from drain_ok_result [OF this] a
  show "\<exists>vs. v = V_List vs \<and> length vs = length (global_spawn st) \<and>
            (\<forall>i < length (global_spawn st). outcome_of (global_spawn st ! i) (vs ! i))"
    "\<forall>c \<in> set (global_spawn st). exited (procs st' c)" by blast+
next
  assume a: "reachable st \<and> (\<forall>c \<in> set (global_spawn st). \<not> exited (procs st c)) \<and>
    step\<^sup>*\<^sup>* (snd (despawn_all st)) st' \<and>
    (\<forall>c \<in> set (global_spawn st). exited (procs st' c)) \<and> microtasks st' = []"
  then have sane: "sane st" by (simp add: sane_reachable)
  have s2: "sane (snd (despawn_all st))" using sane by (rule sane_despawn_all)
  have st: "step\<^sup>*\<^sup>* (snd (despawn_all st)) st'" using a by simp
  from drain_live_despawn_all [OF sane] a
  have l0: "drain_live (fst (despawn_all st)) (next_prom st) (global_spawn st)
      (snd (despawn_all st))" by blast
  have d: "drain_ok (fst (despawn_all st)) (next_prom st) (global_spawn st) st'"
    using drain_ok_steps [OF st s2 drain_ok_despawn_all [OF sane]] by simp
  have l: "drain_live (fst (despawn_all st)) (next_prom st) (global_spawn st) st'"
    using drain_live_steps [OF st s2 drain_ok_despawn_all [OF sane] l0] .
  from drain_live_result [OF d l] a
  show "\<exists>w. pstate (proms st' (fst (despawn_all st))) = Fulfilled w" by simp
qed

lemma reachable_one_spawned_turn: "reachable one_spawned_turn"
  unfolding one_spawned_turn_def
  by (rule reachable_step [OF reachable_one_spawned], rule step.begin_turn)
    (simp_all add: one_spawned_fields)

lemma despawning_all_fields:
  "fst (despawn_all one_spawned_turn) = 2" "in_turn (snd (despawn_all one_spawned_turn))"
  "global_spawn one_spawned_turn = [0]" "next_prom one_spawned_turn = 1"
  "exited (procs one_spawned_turn 0) = False"
  "microtasks despawning_all = []" "in_turn despawning_all = False"
  "next_child despawning_all = 1" "exited (procs despawning_all 0) = False"
  by code_simp+

lemma despawned_closed_fields:
  "microtasks despawned_closed = [Reaction_Job (All_Elem 2 0)
     (V_Result \<lparr>ok = True, child = 0, code = Some 0, signal = None\<rparr>)]"
  "in_turn despawned_closed = False"
  "exited (procs despawned_closed 0)"
  "pstate (proms despawned_closed 2) = Pending"
  by code_simp+

lemma drained_fields:
  "pstate (proms (tick despawned_closed) 2) =
     Fulfilled (V_List [V_Result \<lparr>ok = True, child = 0, code = Some 0, signal = None\<rparr>])"
  "exited (procs (tick despawned_closed) 0)"
  "microtasks (tick despawned_closed) = []"
  by code_simp+

lemma despawn_all_run:
  "step\<^sup>*\<^sup>* (snd (despawn_all one_spawned_turn)) (tick despawned_closed)"
proof -
  have 1: "step (snd (despawn_all one_spawned_turn)) despawning_all"
    unfolding despawning_all_def by (rule step.end_turn) (simp add: despawning_all_fields)
  have 2: "step despawning_all despawned_closed"
    unfolding despawned_closed_def by (rule step.close_event) (simp_all add: despawning_all_fields)
  have 3: "step despawned_closed (tick despawned_closed)"
    by (rule step.micro) (simp_all add: despawned_closed_fields)
  have "step\<^sup>*\<^sup>* (snd (despawn_all one_spawned_turn)) despawning_all"
    using 1 by (rule r_into_rtranclp)
  then have "step\<^sup>*\<^sup>* (snd (despawn_all one_spawned_turn)) despawned_closed"
    using 2 by (rule rtranclp.rtrancl_into_rtrancl)
  then show ?thesis using 3 by (rule rtranclp.rtrancl_into_rtrancl)
qed

theorem despawn_all_outcomes_witness:
  "global_spawn turn_open = [] \<and>
   pstate (proms (snd (despawn_all turn_open)) (fst (despawn_all turn_open))) =
     Fulfilled (V_List []) \<and>
   microtasks (snd (despawn_all turn_open)) = [] \<and>
   reachable one_spawned_turn \<and> global_spawn one_spawned_turn = [0] \<and>
   \<not> exited (procs one_spawned_turn 0) \<and>
   step\<^sup>*\<^sup>* (snd (despawn_all one_spawned_turn)) despawned_closed \<and>
   pstate (proms despawned_closed (fst (despawn_all one_spawned_turn))) = Pending \<and>
   step\<^sup>*\<^sup>* (snd (despawn_all one_spawned_turn)) (tick despawned_closed) \<and>
   pstate (proms (tick despawned_closed) (fst (despawn_all one_spawned_turn))) =
     Fulfilled (V_List [V_Result \<lparr>ok = True, child = 0, code = Some 0, signal = None\<rparr>]) \<and>
   exited (procs (tick despawned_closed) 0) \<and> microtasks (tick despawned_closed) = [] \<and>
   outcome_of 0 (V_Result \<lparr>ok = True, child = 0, code = Some 0, signal = None\<rparr>)"
proof -
  have e: "global_spawn turn_open = []" "microtasks turn_open = []"
    by (simp_all add: turn_open_def init_def)
  from despawn_all_outcomes [of turn_open undefined undefined] e
  have 1: "pstate (proms (snd (despawn_all turn_open)) (fst (despawn_all turn_open))) =
     Fulfilled (V_List [])" "microtasks (snd (despawn_all turn_open)) = []" by simp_all
  have s: "step\<^sup>*\<^sup>* (snd (despawn_all one_spawned_turn)) despawned_closed"
  proof -
    have a: "step (snd (despawn_all one_spawned_turn)) despawning_all"
      unfolding despawning_all_def by (rule step.end_turn) (simp add: despawning_all_fields)
    have b: "step despawning_all despawned_closed"
      unfolding despawned_closed_def
      by (rule step.close_event) (simp_all add: despawning_all_fields)
    have "step\<^sup>*\<^sup>* (snd (despawn_all one_spawned_turn)) despawning_all"
      using a by (rule r_into_rtranclp)
    then show ?thesis using b by (rule rtranclp.rtrancl_into_rtrancl)
  qed
  from despawn_all_outcomes [of one_spawned_turn "tick despawned_closed"
      "V_List [V_Result \<lparr>ok = True, child = 0, code = Some 0, signal = None\<rparr>]"]
    reachable_one_spawned_turn despawn_all_run
  have 2: "exited (procs (tick despawned_closed) 0)"
    unfolding despawning_all_fields(1) by (simp add: despawning_all_fields drained_fields)
  have f: "fst (despawn_all one_spawned_turn) = 2" by (rule despawning_all_fields)
  from despawn_all_outcomes [of one_spawned_turn "tick despawned_closed"
      "V_List [V_Result \<lparr>ok = True, child = 0, code = Some 0, signal = None\<rparr>]"]
    reachable_one_spawned_turn despawn_all_run
  have 3: "\<exists>w. pstate (proms (tick despawned_closed) 2) = Fulfilled w"
    unfolding f by (simp add: despawning_all_fields drained_fields)
  from despawn_all_outcomes [of one_spawned_turn "tick despawned_closed"
      "V_List [V_Result \<lparr>ok = True, child = 0, code = Some 0, signal = None\<rparr>]"]
    reachable_one_spawned_turn despawn_all_run
  have 4: "outcome_of 0 (V_Result \<lparr>ok = True, child = 0, code = Some 0, signal = None\<rparr>)"
    unfolding f by (simp add: despawning_all_fields drained_fields)
  from e 1 2 4 s reachable_one_spawned_turn despawn_all_run show ?thesis
    unfolding f by (simp add: despawning_all_fields despawned_closed_fields drained_fields)
qed

lemma rp_idle_fields:
  "microtasks rp_idle = []" "in_turn rp_idle = False"
  "spawned rp_idle = Some (0, 1)" "restarting rp_idle = None"
  "next_prom rp_idle = 2" "next_child rp_idle = 1"
  "exited (procs rp_idle 0) = False"
  "listeners (procs rp_idle 0) = [Spawn_Close 1]"
  "pstate (proms rp_idle (Suc 0)) = Pending" "reactions (proms rp_idle (Suc 0)) = []"
  "global_spawn rp_idle = [0]" "rp_spawns rp_idle = [0]" "rp_args rp_idle = [''serve'']"
  "constructed rp_idle"
  by (simp_all add: rp_idle_def run_defs)

lemma crashed_fields:
  "microtasks crashed = []" "in_turn crashed = False"
  "spawned crashed = Some (0, 1)" "restarting crashed = None"
  "next_prom crashed = 2" "next_child crashed = 1"
  "exited (procs crashed 0) = True"
  "pstate (proms crashed (Suc 0)) =
     Fulfilled (V_Result \<lparr>ok = False, child = 0, code = Some 1, signal = None\<rparr>)"
  "global_spawn crashed = []" "rp_spawns crashed = [0]" "rp_args crashed = [''serve'']"
  "constructed crashed"
  by (simp_all add: crashed_def os_close_def rp_idle_fields unregister_def set_delete_def
      resolve_promise_def close_result_def truthy_def)

lemma restart_first_fields:
  "fst (restart (crashed\<lparr>in_turn := True\<rparr>)) = 2"
  "in_turn (snd (restart (crashed\<lparr>in_turn := True\<rparr>)))"
  "microtasks restart_first = [Reaction_Job (Close_Resume 3)
     (V_Result \<lparr>ok = False, child = 0, code = Some 1, signal = None\<rparr>)]"
  "in_turn restart_first = False"
  "spawned restart_first = None" "restarting restart_first = Some 1"
  "next_prom restart_first = 4" "next_child restart_first = 1"
  "exited (procs restart_first 0) = True"
  "pstate (proms restart_first 2) = Pending" "reactions (proms restart_first 2) = []"
  "pstate (proms restart_first 3) = Pending"
  "reactions (proms restart_first 3) = [Restart_Resume 2]"
  "global_spawn restart_first = []" "rp_spawns restart_first = [0]"
  "rp_args restart_first = [''serve'']" "constructed restart_first"
  by (simp_all add: restart_first_def crashed_fields restart_def close_def new_promise_def
      child_kill_def then_promise_def Let_def)

lemma restart_gap_fields:
  "microtasks restart_gap = [Reaction_Job (Restart_Resume 2) V_Undefined]"
  "in_turn restart_gap = False"
  "spawned restart_gap = None" "restarting restart_gap = None"
  "next_prom restart_gap = 4" "next_child restart_gap = 1"
  "exited (procs restart_gap 0) = True"
  "pstate (proms restart_gap 2) = Pending" "reactions (proms restart_gap 2) = []"
  "global_spawn restart_gap = []" "rp_spawns restart_gap = [0]"
  "rp_args restart_gap = [''serve'']" "constructed restart_gap"
  by (simp_all add: restart_gap_def tick_def restart_first_fields resolve_promise_def)

lemma restart_second_fields:
  "fst (restart restart_gap) = 4"
  "microtasks restart_second = [Reaction_Job (Restart_Resume 2) V_Undefined]"
  "in_turn restart_second = False"
  "spawned restart_second = Some (1, 5)" "restarting restart_second = None"
  "next_prom restart_second = 6" "next_child restart_second = 2"
  "exited (procs restart_second 0) = True" "exited (procs restart_second (Suc 0)) = False"
  "pstate (proms restart_second 2) = Pending" "reactions (proms restart_second 2) = []"
  "pstate (proms restart_second 4) = Fulfilled V_Undefined"
  "global_spawn restart_second = [1]" "rp_spawns restart_second = [0, 1]"
  "rp_args restart_second = [''serve'']"
  by (simp_all add: restart_second_def restart_gap_fields restart_idle restart_spawn_eq
      spawn_process_def new_promise_def spawn_child_process_def register_global_spawn_def
      once_close_def set_add_def resolve_promise_def Let_def)

lemma restart_both_fields:
  "microtasks restart_both = []" "in_turn restart_both = False"
  "spawned restart_both = Some (2, 6)" "restarting restart_both = None"
  "exited (procs restart_both 0) = True" "exited (procs restart_both (Suc 0)) = False"
  "exited (procs restart_both 2) = False"
  "pstate (proms restart_both 2) = Fulfilled V_Undefined"
  "pstate (proms restart_both 4) = Fulfilled V_Undefined"
  "global_spawn restart_both = [1, 2]" "rp_spawns restart_both = [0, 1, 2]"
  by (simp_all add: restart_both_def tick_def restart_second_fields restart_spawn_eq
      spawn_process_def new_promise_def spawn_child_process_def register_global_spawn_def
      once_close_def set_add_def resolve_promise_def Let_def)

lemma reachable_crashed: "reachable crashed"
proof -
  let ?a = "exec_call (Call_Construct [''serve'']) turn_open"
  have "reachable ?a"
    by (rule reachable_step [OF reachable_turn_open], rule step.client_call)
  then have "reachable rp_idle" unfolding rp_idle_def
    by (rule reachable_step, intro step.end_turn) (simp add: run_defs)
  then show ?thesis unfolding crashed_def
    by (rule reachable_step, intro step.close_event) (simp_all add: rp_idle_fields)
qed

lemma reachable_restart_first: "reachable restart_first"
proof -
  have "reachable (crashed\<lparr>in_turn := True\<rparr>)"
    by (rule reachable_step [OF reachable_crashed], rule step.begin_turn)
      (simp_all add: crashed_fields)
  then have "reachable (exec_call Call_Restart (crashed\<lparr>in_turn := True\<rparr>))"
    by (rule reachable_step, intro step.client_call)
  then show ?thesis unfolding restart_first_def
    by (rule reachable_step, intro step.end_turn)
      (simp add: crashed_fields restart_first_fields)
qed

lemma reachable_restart_gap: "reachable restart_gap"
  unfolding restart_gap_def
  by (rule reachable_step [OF reachable_restart_first], rule step.micro)
    (simp_all add: restart_first_fields)

lemma reachable_restart_both: "reachable restart_both"
proof -
  have "reachable restart_second" unfolding restart_second_def
    by (rule reachable_step [OF reachable_restart_gap], rule step.client_call)
  then show ?thesis unfolding restart_both_def
    by (rule reachable_step, intro step.micro) (simp_all add: restart_second_fields)
qed

text \<open>
  C2. A restartable process is constructed and its child exits by itself. The client
  then calls \<open>restart\<close>, and calls it again from a microtask queued in the same turn
  (\<open>rp.restart(); queueMicrotask(() => rp.restart())\<close>). The first call finds the dead
  child in \<open>spawned\<close>, so it goes through \<open>close\<close>, whose continuation is queued at once
  because \<open>closed\<close> is settled already. That continuation clears \<open>restarting\<close> one
  microtask before the first call resumes and spawns; the second call runs in this gap,
  sees neither \<open>restarting\<close> nor \<open>spawned\<close> and spawns at once. When the queue is empty
  both calls' promises are fulfilled and the restartable process has two live children,
  both registered, of which \<open>spawned\<close> holds only the second.
\<close>

theorem restart_race_leaves_two_live_children:
  "reachable crashed \<and> exited (procs crashed 0) \<and> spawned crashed = Some (0, 1) \<and>
   restarting crashed = None \<and>
   reachable restart_first \<and> restarting restart_first = Some 1 \<and>
   pstate (proms restart_first (fst (restart (crashed\<lparr>in_turn := True\<rparr>)))) = Pending \<and>
   reachable restart_gap \<and> restarting restart_gap = None \<and> spawned restart_gap = None \<and>
   microtasks restart_gap = [Reaction_Job (Restart_Resume 2) V_Undefined] \<and>
   reachable restart_both \<and> microtasks restart_both = [] \<and>
   pstate (proms restart_both (fst (restart (crashed\<lparr>in_turn := True\<rparr>)))) =
     Fulfilled V_Undefined \<and>
   pstate (proms restart_both (fst (restart restart_gap))) = Fulfilled V_Undefined \<and>
   rp_spawns restart_both = [0, 1, 2] \<and>
   \<not> exited (procs restart_both 1) \<and> \<not> exited (procs restart_both 2) \<and>
   global_spawn restart_both = [1, 2] \<and> spawned restart_both = Some (2, 6)"
  unfolding restart_first_fields(1) restart_second_fields(1)
  by (simp add: reachable_crashed reachable_restart_first reachable_restart_gap
      reachable_restart_both crashed_fields restart_first_fields restart_gap_fields
      restart_both_fields)

section \<open>Outcome of a close event\<close>

text \<open>
  C1. The outcome a child's close event resolves with is a failure when the exit code is
  non-zero or when the exit code is null and a signal ended the process. The code tests
  only the truthiness of \<open>code\<close>: a child ended by \<open>SIGTERM\<close> with a null exit code
  resolves its \<open>closed\<close> promise with \<open>ok = True\<close>. The theorem evaluates \<open>spawn_process\<close>
  followed by the close event at that input.
\<close>

theorem spawn_signaled_resolves_ok:
  "(let ((c, cl), st1) = spawn_process [''sleep'', ''100''] init;
        st2 = os_close c None (Some ''SIGTERM'') (child_kill c st1)
    in pstate (proms st2 cl)) =
   Fulfilled (V_Result \<lparr>ok = True, child = 0, code = None, signal = Some ''SIGTERM''\<rparr>)"
  by (simp add: spawn_process_def new_promise_def spawn_child_process_def init_def
      register_global_spawn_def set_add_def once_close_def child_kill_def os_close_def
      unregister_def set_delete_def resolve_promise_def close_result_def truthy_def)

section \<open>Registry operations\<close>

lemma count_list_distinct: "distinct xs \<Longrightarrow> x \<in> set xs \<Longrightarrow> count_list xs x = 1"
  by (induction xs) auto

text \<open>
  C7. Registering a handle that is already in the registry appends exactly one error-level
  log entry and leaves the registry as it was, with the handle in it once; unregistering a
  handle that is not in the registry appends exactly one error-level log entry and leaves
  the registry as it was. Both functions are total: nothing is thrown.
\<close>

theorem register_twice_unregister_absent:
  "(c \<in> set (global_spawn st) \<and> distinct (global_spawn st) \<longrightarrow>
      logged (register_global_spawn c st) =
        logged st @ [\<lparr>lvl = Error, label = ''process'',
                      args = [Text ''already registered global spawn:'', Child_Info c]\<rparr>] \<and>
      global_spawn (register_global_spawn c st) = global_spawn st \<and>
      count_list (global_spawn (register_global_spawn c st)) c = 1) \<and>
   (c \<notin> set (global_spawn st) \<longrightarrow>
      logged (unregister c st) =
        logged st @ [\<lparr>lvl = Error, label = ''process'',
                      args = [Text ''spawn not registered:'', Child_Info c]\<rparr>] \<and>
      global_spawn (unregister c st) = global_spawn st)"
  by (auto simp: register_global_spawn_def unregister_def log_call_def set_add_def
      set_delete_def Let_def count_list_distinct)

theorem register_twice_unregister_absent_witness:
  "(let st = snd (spawn_process [''x''] init) in
      0 \<in> set (global_spawn st) \<and> distinct (global_spawn st) \<and>
      length (logged (register_global_spawn 0 st)) = 1 \<and>
      global_spawn (register_global_spawn 0 st) = [0] \<and>
      7 \<notin> set (global_spawn st) \<and>
      length (logged (unregister 7 st)) = 1 \<and>
      global_spawn (unregister 7 st) = [0])"
proof -
  define st where "st = snd (spawn_process [''x''] init)"
  have g: "global_spawn st = [0]" and l: "logged st = []"
    by (simp_all add: st_def spawn_process_def new_promise_def spawn_child_process_def init_def
        register_global_spawn_def set_add_def once_close_def)
  have a: "0 \<in> set (global_spawn st) \<and> distinct (global_spawn st)"
    and b: "7 \<notin> set (global_spawn st)" by (simp_all add: g)
  from register_twice_unregister_absent [of 0 st] a
  have r: "length (logged (register_global_spawn 0 st)) = 1"
       "global_spawn (register_global_spawn 0 st) = [0]" by (simp_all add: g l)
  from register_twice_unregister_absent [of 7 st] b
  have u: "length (logged (unregister 7 st)) = 1"
    "global_spawn (unregister 7 st) = [0]" by (simp_all add: g l)
  with a b r show ?thesis
    unfolding st_def [symmetric] Let_def by simp
qed

text \<open>
  C8. \<open>despawn\<close> leaves the registry as it found it, and so does the close listener it
  installs; the handle leaves the registry in the close listener that \<open>spawn_process\<close>
  installed.
\<close>

theorem despawn_keeps_registry:
  "global_spawn (snd (despawn c st)) = global_spawn st \<and>
   global_spawn (run_listener c cd sg (Despawn_Close p) st) = global_spawn st \<and>
   c \<notin> set (global_spawn (run_listener c cd sg (Spawn_Close p) st))"
  by (simp add: despawn_def new_promise_def log_call_def once_close_def child_kill_def
      resolve_promise_def unregister_def set_delete_def Let_def split: pstate.splits)

end
